theory Spec2Isabelle
  imports Main "HOL-Library.Word"
begin

unbundle bit_operations_syntax

section \<open>Dual isosurface lookup table (ijkdualtable.h)\<close>

text \<open>
  The header \<^verbatim>\<open>ijkdualtable.h\<close> declares the dual isosurface lookup table of the IJK
  library. Functions whose bodies are in the header are embedded from their C++ text.
  Member functions that are only declared there (their bodies live in a translation unit
  that is not part of the sources at hand) are embedded from their description in the
  specification; each such definition says so in its comment.

  Integer types: \<^verbatim>\<open>TABLE_INDEX\<close> is \<^verbatim>\<open>int\<close>, a 32-bit two's complement word;
  \<^verbatim>\<open>num_table_entries\<close> is \<^verbatim>\<open>long\<close>, a 64-bit word; \<^verbatim>\<open>ISODUAL_VERTEX_INDEX\<close> and
  \<^verbatim>\<open>FACET_INDEX\<close> are \<^verbatim>\<open>unsigned char\<close>. Indices of vertices, edges and facets and the
  counters of the loops are natural numbers: they are never negative and are bounded by
  the sizes of the cube, so no wrap-around can occur in them.
\<close>

subsection \<open>Types\<close>

type_synonym TABLE_INDEX = "32 word"
type_synonym ISODUAL_VERTEX_INDEX = "8 word"

text \<open>\<^verbatim>\<open>ISODUAL_TABLE::ISODUAL_TABLE_ENTRY\<close>: the two arrays are lists.\<close>

record ISODUAL_TABLE_ENTRY =
  num_vertices :: int
  incident_isovertex :: "ISODUAL_VERTEX_INDEX list"
  is_bipolar :: "bool list"

text \<open>The data members of \<^verbatim>\<open>ISODUAL_TABLE\<close>. A null \<^verbatim>\<open>entry\<close> pointer is the empty list.\<close>

record ISODUAL_TABLE =
  dimension :: nat
  num_poly_vertices :: nat
  num_poly_edges :: nat
  entry :: "ISODUAL_TABLE_ENTRY list"
  num_table_entries :: "64 word"
  max_num_vertices :: nat
  is_table_allocated :: bool

text \<open>\<^verbatim>\<open>class ISODUAL_CUBE_TABLE:public ISODUAL_TABLE\<close> adds the two policy flags.\<close>

record ISODUAL_CUBE_TABLE = ISODUAL_TABLE +
  flag_separate_neg :: bool
  flag_always_separate_opposite :: bool

text \<open>
  \<^verbatim>\<open>class ISODUAL_CUBE_TABLE_AMBIG:public ISODUAL_CUBE_TABLE\<close> adds four arrays, indexed by
  table index; \<^verbatim>\<open>FACET_SET\<close> is \<^verbatim>\<open>int\<close>.
\<close>

record ISODUAL_CUBE_TABLE_AMBIG = ISODUAL_CUBE_TABLE +
  is_ambiguous :: "bool list"
  ambiguous_facet :: "32 word list"
  num_ambiguous_facets :: "8 word list"
  num_active_facets :: "8 word list"

text \<open>
  What a call does: it returns a value, it fails with one of the error kinds of the
  specification, or it reads outside an array, which C++ leaves undefined.
\<close>

datatype error = DimensionError | NotBuiltError | ConsistencyError

datatype 'a outcome = Returns 'a | Fails error | Undefined

subsection \<open>Complement index\<close>

text \<open>
  \<^verbatim>\<open>template <typename NTYPE>
  inline TABLE_INDEX compute_complement(const TABLE_INDEX ival, const NTYPE num_table_entries)
  { return(num_table_entries-1-ival); }\<close>

  At its only instance, \<^verbatim>\<open>ISODUAL_TABLE::Complement\<close>, \<^verbatim>\<open>NTYPE\<close> is \<^verbatim>\<open>long\<close>: the
  \<^verbatim>\<open>int\<close> argument is sign-extended to 64 bits, the subtraction is done in 64 bits and
  the result is cut to the 32 bits of the return type.
\<close>

definition compute_complement :: "TABLE_INDEX \<Rightarrow> 64 word \<Rightarrow> TABLE_INDEX" where
  "compute_complement ival n = ucast (n - 1 - scast ival)"

text \<open>\<^verbatim>\<open>int Complement(const int it) const
  { return(compute_complement(it, num_table_entries)); }\<close>\<close>

definition Complement :: "'a ISODUAL_TABLE_scheme \<Rightarrow> TABLE_INDEX \<Rightarrow> TABLE_INDEX" where
  "Complement t it = compute_complement it (num_table_entries t)"

subsection \<open>Accessors of the table\<close>

text \<open>
  \<^verbatim>\<open>int NumIsoVertices(const TABLE_INDEX it) const { return(entry[it].num_vertices); }\<close>

  The accessors index the arrays without any check; an index outside the allocated array
  (every index, when nothing is allocated) is an undefined read.
\<close>

definition NumIsoVertices :: "'a ISODUAL_TABLE_scheme \<Rightarrow> TABLE_INDEX \<Rightarrow> int outcome" where
  "NumIsoVertices t it =
     (if 0 \<le> sint it \<and> nat (sint it) < length (entry t)
      then Returns (num_vertices (entry t ! nat (sint it))) else Undefined)"

text \<open>\<^verbatim>\<open>ISODUAL_VERTEX_INDEX IncidentIsoVertex(const TABLE_INDEX it, const int kf) const
  { return(entry[it].incident_isovertex[kf]); }\<close>\<close>

definition IncidentIsoVertex ::
  "'a ISODUAL_TABLE_scheme \<Rightarrow> TABLE_INDEX \<Rightarrow> nat \<Rightarrow> ISODUAL_VERTEX_INDEX outcome" where
  "IncidentIsoVertex t it kf =
     (if 0 \<le> sint it \<and> nat (sint it) < length (entry t)
         \<and> kf < length (incident_isovertex (entry t ! nat (sint it)))
      then Returns (incident_isovertex (entry t ! nat (sint it)) ! kf) else Undefined)"

text \<open>\<^verbatim>\<open>bool IsBipolar(const TABLE_INDEX it, const int ke) const
  { return(entry[it].is_bipolar[ke]); }\<close>\<close>

definition IsBipolar :: "'a ISODUAL_TABLE_scheme \<Rightarrow> TABLE_INDEX \<Rightarrow> nat \<Rightarrow> bool outcome" where
  "IsBipolar t it ke =
     (if 0 \<le> sint it \<and> nat (sint it) < length (entry t)
         \<and> ke < length (is_bipolar (entry t ! nat (sint it)))
      then Returns (is_bipolar (entry t ! nat (sint it)) ! ke) else Undefined)"

text \<open>\<^verbatim>\<open>bool IsTableAllocated() const { return(is_table_allocated); }\<close> and
  \<^verbatim>\<open>int MaxNumVertices() const { return(max_num_vertices); }\<close>\<close>

definition IsTableAllocated :: "'a ISODUAL_TABLE_scheme \<Rightarrow> bool" where
  "IsTableAllocated t = is_table_allocated t"

definition MaxNumVertices :: "'a ISODUAL_TABLE_scheme \<Rightarrow> nat" where
  "MaxNumVertices t = max_num_vertices t"


subsection \<open>Facets of the cube\<close>

text \<open>
  \<^verbatim>\<open>ISODUAL_CUBE_FACE_INFO\<close> derives from \<^verbatim>\<open>IJK::CUBE_FACE_INFO\<close>, which is declared in
  \<^verbatim>\<open>ijkcube.txx\<close> and is not among the sources. Its queries are parameters of the
  embedding: the three that the header calls (\<^verbatim>\<open>NumFacets()\<close>, \<^verbatim>\<open>NumFacetVertices()\<close>,
  \<^verbatim>\<open>FacetVertex(ifacet, j)\<close>), and the vertex count, the edge count and the endpoints of
  an edge, which the specification lists as what the geometry service supplies. The
  policy of the table builder speaks of vertices that are diagonally opposite in the
  cube, so the description also gives the vertex opposite to a vertex.
\<close>

record CUBE_FACE_INFO =
  NumVertices :: nat
  NumEdges :: nat
  EdgeEndpoint :: "nat \<Rightarrow> nat \<times> nat"
  NumFacets :: nat
  NumFacetVertices :: nat
  FacetVertex :: "nat \<Rightarrow> nat \<Rightarrow> nat"
  OppositeVertex :: "nat \<Rightarrow> nat"

text \<open>
  \<^verbatim>\<open>num_ones = 0; num_zeros = 0;
  for (NTYPE j = 0; j < this->NumFacetVertices(); j++) {
    const NTYPE jv = this->FacetVertex(ifacet, j);
    const TABLE_INDEX mask = (TABLE_INDEX(1) << jv);
    if ((mask & ientry) == 0) { num_zeros++; } else { num_ones++; }
  }\<close>

  The two reference parameters are returned as the pair \<open>(num_zeros, num_ones)\<close>. The shift
  is defined in C++ for \<open>jv < 32\<close> only.
\<close>

definition ComputeNumCubeFacetBits :: "CUBE_FACE_INFO \<Rightarrow> TABLE_INDEX \<Rightarrow> nat \<Rightarrow> nat \<times> nat" where
  "ComputeNumCubeFacetBits c ientry ifacet =
     fold (\<lambda>j (num_zeros, num_ones).
             let jv = FacetVertex c ifacet j;
                 mask = (push_bit jv 1 :: TABLE_INDEX)
             in if mask AND ientry = 0 then (num_zeros + 1, num_ones)
                else (num_zeros, num_ones + 1))
          [0..<NumFacetVertices c] (0, 0)"

text \<open>
  \<^verbatim>\<open>ComputeNumCubeFacetBits(ientry, ifacet, num_zeros, num_ones);
  if (num_zeros > 0 && num_ones > 0) { return(true); } else { return(false); }\<close>
\<close>

definition IsCubeFacetActive :: "CUBE_FACE_INFO \<Rightarrow> TABLE_INDEX \<Rightarrow> nat \<Rightarrow> bool" where
  "IsCubeFacetActive c ientry ifacet =
     (case ComputeNumCubeFacetBits c ientry ifacet of
        (num_zeros, num_ones) \<Rightarrow> if num_zeros > 0 \<and> num_ones > 0 then True else False)"

text \<open>
  \<^verbatim>\<open>NTYPE num_active_facets = 0;
  for (NTYPE ifacet = 0; ifacet < this->NumFacets(); ifacet++) {
    if (IsCubeFacetActive(ientry, ifacet)) { num_active_facets++; }
  }
  return(num_active_facets);\<close>
\<close>

definition ComputeNumActiveCubeFacets :: "CUBE_FACE_INFO \<Rightarrow> TABLE_INDEX \<Rightarrow> nat" where
  "ComputeNumActiveCubeFacets c ientry =
     fold (\<lambda>ifacet num_active_facets.
             if IsCubeFacetActive c ientry ifacet then num_active_facets + 1
             else num_active_facets)
          [0..<NumFacets c] 0"

section \<open>Functions declared in the header, modelled from the specification\<close>

subsection \<open>Connected-component analyzer (class FIND_COMPONENT)\<close>

text \<open>
  The data members of \<^verbatim>\<open>FIND_COMPONENT\<close>: the number of cube vertices and the two arrays
  \<^verbatim>\<open>vertex_flag\<close> and \<^verbatim>\<open>component\<close>. The member \<^verbatim>\<open>dimension\<close> only serves to enumerate
  the edges of the cube; here the description of the cube is passed to the functions that
  walk over its edges.
\<close>

record FIND_COMPONENT =
  num_cube_vertices :: nat
  vertex_flag :: "bool list"
  component :: "nat list"

text \<open>
  Modelled from the spec: the constructor of \<^verbatim>\<open>FIND_COMPONENT\<close> is missing. The scratch
  state holds a flag and a component id per vertex, 0 meaning unvisited.
\<close>

definition FIND_COMPONENT_init :: "nat \<Rightarrow> FIND_COMPONENT" where
  "FIND_COMPONENT_init n =
     \<lparr>num_cube_vertices = n, vertex_flag = replicate n False, component = replicate n 0\<rparr>"

text \<open>
  Modelled from the spec: the body of \<^verbatim>\<open>FIND_COMPONENT::SetVertexFlags\<close> is missing.
  "setVertexFlags(ival): flag[v] = bit v of ival."
\<close>

definition SetVertexFlags :: "FIND_COMPONENT \<Rightarrow> TABLE_INDEX \<Rightarrow> FIND_COMPONENT" where
  "SetVertexFlags s ival = s\<lparr>vertex_flag := map (\<lambda>v. bit ival v) [0..<num_cube_vertices s]\<rparr>"

text \<open>
  Modelled from the spec: the body of \<^verbatim>\<open>FIND_COMPONENT::NegateVertexFlags\<close> is missing.
  "negateVertexFlags(): flips all flags."
\<close>

definition NegateVertexFlags :: "FIND_COMPONENT \<Rightarrow> FIND_COMPONENT" where
  "NegateVertexFlags s = s\<lparr>vertex_flag := map Not (vertex_flag s)\<rparr>"

text \<open>
  Modelled from the spec: the body of \<^verbatim>\<open>FIND_COMPONENT::ClearAll\<close> is missing.
  "clear(): resets all component ids to 0 (unvisited)."
\<close>

definition ClearAll :: "FIND_COMPONENT \<Rightarrow> FIND_COMPONENT" where
  "ClearAll s = s\<lparr>component := replicate (num_cube_vertices s) 0\<rparr>"

text \<open>
  A vertex can be visited when it is inside the arrays, flagged and without a component
  id. The predicate \<open>ok\<close> restricts the search: to all vertices for \<^verbatim>\<open>Search\<close>, to the
  vertices of one facet for \<^verbatim>\<open>SearchFacet\<close>.
\<close>

definition unvisited :: "(nat \<Rightarrow> bool) \<Rightarrow> FIND_COMPONENT \<Rightarrow> nat \<Rightarrow> bool" where
  "unvisited ok s w \<longleftrightarrow>
     ok w \<and> w < length (vertex_flag s) \<and> w < length (component s)
     \<and> vertex_flag s ! w \<and> component s ! w = 0"

text \<open>Visiting a vertex assigns it the component id and puts it on the stack.\<close>

definition visit ::
  "(nat \<Rightarrow> bool) \<Rightarrow> nat \<Rightarrow> nat \<Rightarrow> nat list \<times> FIND_COMPONENT \<Rightarrow> nat list \<times> FIND_COMPONENT" where
  "visit ok icomp w = (\<lambda>(stack, s).
     if unvisited ok s w then (w # stack, s\<lparr>component := (component s)[w := icomp]\<rparr>)
     else (stack, s))"

text \<open>The vertices joined to \<open>v\<close> by a polytope edge, in the order of the edges.\<close>

definition adjacent_vertices :: "CUBE_FACE_INFO \<Rightarrow> nat \<Rightarrow> nat list" where
  "adjacent_vertices c v =
     concat (map (\<lambda>e. case EdgeEndpoint c e of
                         (a, b) \<Rightarrow> (if a = v then [b] else []) @ (if b = v then [a] else []))
                 [0..<NumEdges c])"

definition unvisited_count :: "FIND_COMPONENT \<Rightarrow> nat" where
  "unvisited_count s = card {w. w < length (component s) \<and> component s ! w = 0}"

text \<open>
  Modelled from the spec: the body of \<^verbatim>\<open>FIND_COMPONENT::Search\<close> is missing. "search(v, id):
  flood-fills from vertex v over polytope edges, visiting only flagged, unvisited vertices,
  assigning them component id id. Precondition: id != 0." The flood fill keeps a stack of
  visited vertices whose neighbours are still to be looked at. With the id 0, which the
  precondition excludes, no vertex would ever become visited; the model stops at once.
\<close>

function flood ::
  "CUBE_FACE_INFO \<Rightarrow> (nat \<Rightarrow> bool) \<Rightarrow> nat \<Rightarrow> nat list \<Rightarrow> FIND_COMPONENT \<Rightarrow> FIND_COMPONENT" where
  "flood c ok icomp [] s = s"
| "flood c ok icomp (v # stack) s =
     (if icomp = 0 then s
      else let r = fold (visit ok icomp) (adjacent_vertices c v) (stack, s)
           in flood c ok icomp (fst r) (snd r))"
  by pat_completeness auto

lemma unvisited_count_mark:
  assumes "w < length (component s)" "component s ! w = 0" "icomp \<noteq> 0"
  shows "Suc (unvisited_count (s\<lparr>component := (component s)[w := icomp]\<rparr>)) = unvisited_count s"
proof -
  let ?A = "{x. x < length (component s) \<and> component s ! x = 0}"
  have eq: "{x. x < length ((component s)[w := icomp]) \<and> (component s)[w := icomp] ! x = 0} = ?A - {w}"
    using assms by (auto simp: nth_list_update)
  have fin: "finite ?A" by simp
  have mem: "w \<in> ?A" using assms by simp
  have "Suc (card (?A - {w})) = card ?A"
    using fin mem by (rule card_Suc_Diff1)
  then show ?thesis
    unfolding unvisited_count_def using eq by simp
qed

lemma visit_measure:
  assumes "icomp \<noteq> 0"
  shows "2 * unvisited_count (snd (visit ok icomp w r)) + length (fst (visit ok icomp w r))
           \<le> 2 * unvisited_count (snd r) + length (fst r)"
proof (cases r)
  case (Pair stack s)
  show ?thesis
  proof (cases "unvisited ok s w")
    case True
    then have "Suc (unvisited_count (s\<lparr>component := (component s)[w := icomp]\<rparr>)) = unvisited_count s"
      using assms by (intro unvisited_count_mark) (auto simp: unvisited_def)
    then show ?thesis using Pair True by (simp add: visit_def)
  next
    case False
    then show ?thesis using Pair by (simp add: visit_def)
  qed
qed

lemma fold_visit_measure:
  assumes "icomp \<noteq> 0"
  shows "2 * unvisited_count (snd (fold (visit ok icomp) ws r)) + length (fst (fold (visit ok icomp) ws r))
           \<le> 2 * unvisited_count (snd r) + length (fst r)"
proof (induction ws arbitrary: r)
  case Nil
  show ?case by simp
next
  case (Cons w ws)
  have "2 * unvisited_count (snd (fold (visit ok icomp) ws (visit ok icomp w r)))
          + length (fst (fold (visit ok icomp) ws (visit ok icomp w r)))
        \<le> 2 * unvisited_count (snd (visit ok icomp w r)) + length (fst (visit ok icomp w r))"
    by (rule Cons.IH)
  also have "\<dots> \<le> 2 * unvisited_count (snd r) + length (fst r)"
    by (rule visit_measure [OF assms])
  finally show ?case by simp
qed

text \<open>
  The flood fill returns: every round either visits a new vertex or shortens the stack.
\<close>

termination flood
proof (relation "measure (\<lambda>(c, ok, icomp, stack, s). 2 * unvisited_count s + length stack)")
  show "wf (measure (\<lambda>(c, ok, icomp, stack, s). 2 * unvisited_count s + length stack))"
    by simp
next
  fix c :: CUBE_FACE_INFO and ok :: "nat \<Rightarrow> bool" and icomp v :: nat and stack :: "nat list"
    and s :: FIND_COMPONENT and x
  assume "icomp \<noteq> 0" and x: "x = fold (visit ok icomp) (adjacent_vertices c v) (stack, s)"
  then have "2 * unvisited_count (snd x) + length (fst x) \<le> 2 * unvisited_count s + length stack"
    using fold_visit_measure [of icomp ok "adjacent_vertices c v" "(stack, s)"] by simp
  then show "((c, ok, icomp, fst x, snd x), (c, ok, icomp, v # stack, s))
       \<in> measure (\<lambda>(c, ok, icomp, stack, s). 2 * unvisited_count s + length stack)"
    by (simp add: case_prod_beta)
qed

definition search_from ::
  "CUBE_FACE_INFO \<Rightarrow> (nat \<Rightarrow> bool) \<Rightarrow> FIND_COMPONENT \<Rightarrow> nat \<Rightarrow> nat \<Rightarrow> FIND_COMPONENT" where
  "search_from c ok s i icomp =
     (let r = visit ok icomp i ([], s) in flood c ok icomp (fst r) (snd r))"

definition Search :: "CUBE_FACE_INFO \<Rightarrow> FIND_COMPONENT \<Rightarrow> nat \<Rightarrow> nat \<Rightarrow> FIND_COMPONENT" where
  "Search c s i icomp = search_from c (\<lambda>w. True) s i icomp"

text \<open>
  Modelled from the spec: the body of \<^verbatim>\<open>FIND_COMPONENT::SearchFacet\<close> is missing.
  "searchFacet(f, v, id): identical flood fill but restricted to the vertex subset of
  facet f."
\<close>

definition in_facet :: "CUBE_FACE_INFO \<Rightarrow> nat \<Rightarrow> nat \<Rightarrow> bool" where
  "in_facet c kf w \<longleftrightarrow> w \<in> set (map (FacetVertex c kf) [0..<NumFacetVertices c])"

definition SearchFacet :: "CUBE_FACE_INFO \<Rightarrow> FIND_COMPONENT \<Rightarrow> nat \<Rightarrow> nat \<Rightarrow> nat \<Rightarrow> FIND_COMPONENT" where
  "SearchFacet c s kf i icomp = search_from c (in_facet c kf) s i icomp"

text \<open>
  Modelled from the spec: the body of \<^verbatim>\<open>FIND_COMPONENT::ComputeNumComponents\<close> is missing.
  "countComponents(ientry, usePositive): sets flags from ientry (negated if usePositive is
  false), clears components, then repeatedly selects an unvisited flagged vertex and runs
  search with an incrementing id until every flagged vertex is assigned; returns the final
  id count." The vertices are tried in increasing order. The function returns the count
  together with the scratch state it leaves behind.
\<close>

definition prepare :: "FIND_COMPONENT \<Rightarrow> TABLE_INDEX \<Rightarrow> bool \<Rightarrow> FIND_COMPONENT" where
  "prepare s ientry flag_positive =
     (let s1 = SetVertexFlags s ientry;
          s2 = (if flag_positive then s1 else NegateVertexFlags s1)
      in ClearAll s2)"

definition count_step ::
  "CUBE_FACE_INFO \<Rightarrow> (nat \<Rightarrow> bool) \<Rightarrow> nat \<Rightarrow> nat \<times> FIND_COMPONENT \<Rightarrow> nat \<times> FIND_COMPONENT" where
  "count_step c ok i = (\<lambda>(num, s).
     if unvisited ok s i then (num + 1, search_from c ok s i (num + 1)) else (num, s))"

definition ComputeNumComponents ::
  "CUBE_FACE_INFO \<Rightarrow> FIND_COMPONENT \<Rightarrow> TABLE_INDEX \<Rightarrow> bool \<Rightarrow> nat \<times> FIND_COMPONENT" where
  "ComputeNumComponents c s ientry flag_positive =
     fold (count_step c (\<lambda>w. True)) [0..<num_cube_vertices s] (0, prepare s ientry flag_positive)"


subsection \<open>Ambiguity classifier\<close>




subsection \<open>Table builder\<close>

text \<open>
  Modelled from the spec: the body of \<^verbatim>\<open>ISODUAL_TABLE::IsPositive\<close> is missing.
  "isPositive(it, v) (bit test of vertex v in it)."
\<close>

definition IsPositive :: "'a ISODUAL_TABLE_scheme \<Rightarrow> TABLE_INDEX \<Rightarrow> nat \<Rightarrow> bool" where
  "IsPositive t it iv = bit it iv"

text \<open>
  Modelled from the spec: the body of \<^verbatim>\<open>ISODUAL_CUBE_TABLE::CreateTableEntries\<close> is missing.
  The per-index algorithm of the table builder:

  "1. patchCount[it] = countComponents(it, true) plus, if separateNegative,
  countComponents(it, false); each discovered component becomes one patch index. If
  alwaysSeparateOpposite applies and the naive component split would merge vertices that
  are diagonally opposite in the full cube, force them into separate components before
  assigning patch indices.
  2. For every edge e: isBipolar[it][e] = (sign(endpoint0) != sign(endpoint1)); when true,
  incidentPatch[it][e] = the patch id of whichever endpoint belongs to the tracked sign
  class (positive by default).
  3. Store the completed record."

  The specification does not say how the components are forced apart, so that step is a
  parameter \<open>force\<close>: it receives the table index, the sign class and the naive split (the
  number of components and the component id of every vertex) and returns the split to
  use. It is applied only when the flag is set and the naive split has put two
  diagonally opposite vertices of the sign class into one component; otherwise the naive
  split stays. Component ids start at 1 and patch indices at 0.

  A patch is "one connected piece of isosurface inside a cell", the patch count is the
  "number of isosurface vertices for this configuration", and the all-outside and the
  all-inside configuration have the patch count 0 (glossary, sections 3 and 8; the header
  calls the field the "number of dualiso vertices in cube"). A configuration that no edge
  crosses holds no isosurface: its patch count is 0, and the count of step 1 is that of
  the configurations with a bipolar edge.
\<close>

type_synonym separation = "TABLE_INDEX \<Rightarrow> bool \<Rightarrow> nat \<times> nat list \<Rightarrow> nat \<times> nat list"

definition label_at :: "nat list \<Rightarrow> nat \<Rightarrow> nat" where
  "label_at labels v = (if v < length labels then labels ! v else 0)"

definition merges_opposite :: "CUBE_FACE_INFO \<Rightarrow> TABLE_INDEX \<Rightarrow> bool \<Rightarrow> nat list \<Rightarrow> bool" where
  "merges_opposite c it flag_positive labels \<longleftrightarrow>
     (\<exists>v \<in> set [0..<NumVertices c].
        OppositeVertex c v \<noteq> v \<and> OppositeVertex c v < NumVertices c
        \<and> (bit it v \<longleftrightarrow> flag_positive) \<and> (bit it (OppositeVertex c v) \<longleftrightarrow> flag_positive)
        \<and> label_at labels v = label_at labels (OppositeVertex c v))"

definition labelled_components ::
  "CUBE_FACE_INFO \<Rightarrow> separation \<Rightarrow> bool \<Rightarrow> TABLE_INDEX \<Rightarrow> bool \<Rightarrow> nat \<times> nat list" where
  "labelled_components c force flag_separate_opposite it flag_positive =
     (let r = ComputeNumComponents c (FIND_COMPONENT_init (NumVertices c)) it flag_positive;
          naive = (fst r, component (snd r))
      in if flag_separate_opposite \<and> merges_opposite c it flag_positive (snd naive)
         then force it flag_positive naive else naive)"

definition is_crossed :: "CUBE_FACE_INFO \<Rightarrow> TABLE_INDEX \<Rightarrow> bool" where
  "is_crossed c it \<longleftrightarrow>
     (\<exists>e \<in> set [0..<NumEdges c]. case EdgeEndpoint c e of (v0, v1) \<Rightarrow> bit it v0 \<noteq> bit it v1)"

definition create_entry ::
  "CUBE_FACE_INFO \<Rightarrow> separation \<Rightarrow> bool \<Rightarrow> bool \<Rightarrow> TABLE_INDEX \<Rightarrow> ISODUAL_TABLE_ENTRY" where
  "create_entry c force sep_neg sep_opp it =
     (let pos = labelled_components c force sep_opp it True;
          num_neg = (if sep_neg then fst (labelled_components c force sep_opp it False) else 0)
      in \<lparr>num_vertices = (if is_crossed c it then int (fst pos + num_neg) else 0),
          incident_isovertex =
            map (\<lambda>e. case EdgeEndpoint c e of
                        (v0, v1) \<Rightarrow>
                          if bit it v0 \<noteq> bit it v1
                          then of_nat (label_at (snd pos) (if bit it v0 then v0 else v1) - 1)
                          else 0)
                [0..<NumEdges c],
          is_bipolar =
            map (\<lambda>e. case EdgeEndpoint c e of (v0, v1) \<Rightarrow> bit it v0 \<noteq> bit it v1)
                [0..<NumEdges c]\<rparr>)"

definition CreateTableEntries ::
  "CUBE_FACE_INFO \<Rightarrow> separation \<Rightarrow> bool \<Rightarrow> bool \<Rightarrow> ISODUAL_TABLE_ENTRY list" where
  "CreateTableEntries c force sep_neg sep_opp =
     map (\<lambda>i. create_entry c force sep_neg sep_opp (of_nat i)) [0..<2 ^ NumVertices c]"

text \<open>
  Modelled from the spec: the body of \<^verbatim>\<open>ISODUAL_TABLE::FreeAll\<close> is missing. "release():
  frees all records."
\<close>

definition FreeAll :: "'a ISODUAL_TABLE_scheme \<Rightarrow> 'a ISODUAL_TABLE_scheme" where
  "FreeAll t = t\<lparr>entry := [], num_table_entries := 0, is_table_allocated := False\<rparr>"

text \<open>
  Modelled from the spec: the body of \<^verbatim>\<open>ISODUAL_CUBE_TABLE::Create\<close> is missing, and so are
  those of \<^verbatim>\<open>SetDimension\<close> and \<^verbatim>\<open>CheckDimension\<close>. "setDimension(d) / build(d, flags):
  derives vertex/edge/facet counts from the Geometry Service, allocates 2^vertexCount
  records. Fails with DimensionError if vertex count would exceed the maximum supported."
  "Construction failures are fatal to table availability." The geometry service is the
  parameter \<open>cube\<close>, from the dimension to the description of the cube. The result is the
  error, if any, and the table object after the call.
\<close>

definition Create ::
  "(nat \<Rightarrow> CUBE_FACE_INFO) \<Rightarrow> separation \<Rightarrow> 'a ISODUAL_CUBE_TABLE_scheme \<Rightarrow> nat \<Rightarrow> bool \<Rightarrow> bool
     \<Rightarrow> error option \<times> 'a ISODUAL_CUBE_TABLE_scheme" where
  "Create cube force t d sep_neg sep_opp =
     (let c = cube d; t0 = FreeAll t
      in if max_num_vertices t < NumVertices c then (Some DimensionError, t0)
         else (None,
               t0\<lparr>dimension := d, num_poly_vertices := NumVertices c,
                  num_poly_edges := NumEdges c,
                  entry := CreateTableEntries c force sep_neg sep_opp,
                  num_table_entries := 2 ^ NumVertices c,
                  is_table_allocated := True,
                  flag_separate_neg := sep_neg,
                  flag_always_separate_opposite := sep_opp\<rparr>))"




subsection \<open>Concrete inputs\<close>

text \<open>A table record with nothing allocated and a given number of entries.\<close>

definition table_of_size :: "64 word \<Rightarrow> ISODUAL_TABLE" where
  "table_of_size n =
     \<lparr>dimension = 0, num_poly_vertices = 0, num_poly_edges = 0, entry = [],
      num_table_entries = n, max_num_vertices = 0, is_table_allocated = False\<rparr>"

text \<open>
  Modelled from the spec: the constructors are missing. A table object before any build:
  nothing allocated, and a given maximal number of cube vertices.
\<close>

definition ISODUAL_CUBE_TABLE_AMBIG_init :: "nat \<Rightarrow> ISODUAL_CUBE_TABLE_AMBIG" where
  "ISODUAL_CUBE_TABLE_AMBIG_init maxv =
     \<lparr>dimension = 0, num_poly_vertices = 0, num_poly_edges = 0, entry = [],
      num_table_entries = 0, max_num_vertices = maxv, is_table_allocated = False,
      flag_separate_neg = False, flag_always_separate_opposite = False,
      is_ambiguous = [], ambiguous_facet = [], num_ambiguous_facets = [],
      num_active_facets = []\<rparr>"

text \<open>
  Modelled from the spec: the geometry of the cube is missing. The 2-dimensional cube of
  the specification has 4 vertices and 4 edges, and its corners 0 and 2 are diagonally
  opposite (and so are 1 and 3): the edges join 0-1, 1-2, 2-3 and 3-0. Its facets are its
  edges.
\<close>

definition square :: CUBE_FACE_INFO where
  "square = \<lparr>NumVertices = 4, NumEdges = 4,
     EdgeEndpoint = (\<lambda>e. [(0, 1), (1, 2), (2, 3), (3, 0)] ! e),
     NumFacets = 4, NumFacetVertices = 2,
     FacetVertex = (\<lambda>f j. [[0, 1], [1, 2], [2, 3], [3, 0]] ! f ! j),
     OppositeVertex = (\<lambda>v. [2, 3, 0, 1] ! v)\<rparr>"

text \<open>A separation step that leaves the naive split as it is.\<close>

definition no_separation :: separation where
  "no_separation it flag_positive r = r"


section \<open>Notions of the specification\<close>

text \<open>
  The vertices of one sign in a configuration, the polytope edges between two of them,
  and the number of connected components of that graph: the classes of the vertices
  under reachability.
\<close>

definition sign_class :: "CUBE_FACE_INFO \<Rightarrow> TABLE_INDEX \<Rightarrow> bool \<Rightarrow> nat set" where
  "sign_class c ientry flag_positive = {v. v < NumVertices c \<and> (bit ientry v \<longleftrightarrow> flag_positive)}"

definition same_sign_adjacent :: "CUBE_FACE_INFO \<Rightarrow> TABLE_INDEX \<Rightarrow> bool \<Rightarrow> (nat \<times> nat) set" where
  "same_sign_adjacent c ientry flag_positive =
     {(a, b). a \<in> sign_class c ientry flag_positive \<and> b \<in> sign_class c ientry flag_positive
        \<and> (\<exists>e<NumEdges c. EdgeEndpoint c e = (a, b) \<or> EdgeEndpoint c e = (b, a))}"

definition num_connected_components :: "CUBE_FACE_INFO \<Rightarrow> TABLE_INDEX \<Rightarrow> bool \<Rightarrow> nat" where
  "num_connected_components c ientry flag_positive =
     card ((\<lambda>v. (same_sign_adjacent c ientry flag_positive)\<^sup>* `` {v})
             ` sign_class c ientry flag_positive)"

text \<open>A facet that holds a positive vertex, a negative vertex; the facets that hold both.\<close>

definition facet_has_positive :: "CUBE_FACE_INFO \<Rightarrow> TABLE_INDEX \<Rightarrow> nat \<Rightarrow> bool" where
  "facet_has_positive c ientry f \<longleftrightarrow> (\<exists>j<NumFacetVertices c. bit ientry (FacetVertex c f j))"

definition facet_has_negative :: "CUBE_FACE_INFO \<Rightarrow> TABLE_INDEX \<Rightarrow> nat \<Rightarrow> bool" where
  "facet_has_negative c ientry f \<longleftrightarrow> (\<exists>j<NumFacetVertices c. \<not> bit ientry (FacetVertex c f j))"

definition num_crossed_facets :: "CUBE_FACE_INFO \<Rightarrow> TABLE_INDEX \<Rightarrow> nat" where
  "num_crossed_facets c ientry =
     card {f. f < NumFacets c \<and> facet_has_positive c ientry f \<and> facet_has_negative c ientry f}"

text \<open>Well-formed descriptions of a cube: the vertices of facets and edges are in range.\<close>

definition facet_vertices_below :: "CUBE_FACE_INFO \<Rightarrow> nat \<Rightarrow> bool" where
  "facet_vertices_below c n \<longleftrightarrow>
     (\<forall>f<NumFacets c. \<forall>j<NumFacetVertices c. FacetVertex c f j < n)"




subsection \<open>Invariants of the flood fill and of the counting loop\<close>

text \<open>
  During a search that started in state \<open>s0\<close>: the vertices that the search has marked,
  and the edges between vertices that were unvisited at the start.
\<close>

definition marked :: "(nat \<Rightarrow> bool) \<Rightarrow> FIND_COMPONENT \<Rightarrow> nat \<Rightarrow> FIND_COMPONENT \<Rightarrow> nat set" where
  "marked ok s0 icomp s = {w. unvisited ok s0 w \<and> component s ! w = icomp}"

definition fresh_adjacent :: "CUBE_FACE_INFO \<Rightarrow> (nat \<Rightarrow> bool) \<Rightarrow> FIND_COMPONENT \<Rightarrow> (nat \<times> nat) set" where
  "fresh_adjacent c ok s0 =
     {(a, b). unvisited ok s0 a \<and> unvisited ok s0 b \<and> b \<in> set (adjacent_vertices c a)}"

text \<open>
  The invariant of the flood fill: only vertices unvisited at the start change, and only
  to the new id; the marked vertices are reachable from the start vertex; the stack holds
  marked vertices; and every marked vertex that is neither on the stack nor in the set
  \<open>P\<close> of vertices being expanded has all its fresh neighbours marked.
\<close>

definition flood_inv ::
  "CUBE_FACE_INFO \<Rightarrow> (nat \<Rightarrow> bool) \<Rightarrow> FIND_COMPONENT \<Rightarrow> nat \<Rightarrow> nat \<Rightarrow> nat set \<Rightarrow> nat list
     \<Rightarrow> FIND_COMPONENT \<Rightarrow> bool" where
  "flood_inv c ok s0 icomp i P stack s \<longleftrightarrow>
     vertex_flag s = vertex_flag s0 \<and> length (component s) = length (component s0) \<and>
     (\<forall>w. w < length (component s0) \<and> \<not> unvisited ok s0 w \<longrightarrow> component s ! w = component s0 ! w) \<and>
     (\<forall>w. unvisited ok s0 w \<longrightarrow> component s ! w = icomp \<or> component s ! w = 0) \<and>
     marked ok s0 icomp s \<subseteq> (fresh_adjacent c ok s0)\<^sup>* `` {i} \<and>
     i \<in> marked ok s0 icomp s \<and>
     set stack \<subseteq> marked ok s0 icomp s \<and>
     (\<forall>a b. a \<in> marked ok s0 icomp s \<and> a \<notin> set stack \<and> a \<notin> P \<and> (a, b) \<in> fresh_adjacent c ok s0
        \<longrightarrow> b \<in> marked ok s0 icomp s)"

text \<open>The flagged vertices of a state and the edges between them.\<close>

definition flagged :: "(nat \<Rightarrow> bool) \<Rightarrow> FIND_COMPONENT \<Rightarrow> nat set" where
  "flagged ok s = {w. ok w \<and> w < length (vertex_flag s) \<and> w < length (component s) \<and> vertex_flag s ! w}"

definition class_adjacent :: "CUBE_FACE_INFO \<Rightarrow> (nat \<Rightarrow> bool) \<Rightarrow> FIND_COMPONENT \<Rightarrow> (nat \<times> nat) set" where
  "class_adjacent c ok s =
     {(a, b). a \<in> flagged ok s \<and> b \<in> flagged ok s \<and> b \<in> set (adjacent_vertices c a)}"

text \<open>
  The invariant of the counting loop, for the counter and the state \<open>r\<close> after the vertices
  in \<open>D\<close>: ids are at most the counter, are constant along edges, join only connected
  vertices, every id up to the counter is in use, and the flagged vertices in \<open>D\<close> have
  one.
\<close>

definition count_inv ::
  "CUBE_FACE_INFO \<Rightarrow> (nat \<Rightarrow> bool) \<Rightarrow> FIND_COMPONENT \<Rightarrow> nat set \<Rightarrow> nat \<times> FIND_COMPONENT \<Rightarrow> bool" where
  "count_inv c ok s0 D r \<longleftrightarrow>
     vertex_flag (snd r) = vertex_flag s0 \<and> length (component (snd r)) = length (component s0) \<and>
     (\<forall>w \<in> flagged ok s0. component (snd r) ! w \<le> fst r) \<and>
     (\<forall>a b. (a, b) \<in> class_adjacent c ok s0 \<longrightarrow> component (snd r) ! a = component (snd r) ! b) \<and>
     (\<forall>a \<in> flagged ok s0. \<forall>b \<in> flagged ok s0.
        component (snd r) ! a = component (snd r) ! b \<and> component (snd r) ! a \<noteq> 0
        \<longrightarrow> (a, b) \<in> (class_adjacent c ok s0)\<^sup>*) \<and>
     (\<forall>k. 1 \<le> k \<and> k \<le> fst r \<longrightarrow> (\<exists>w \<in> flagged ok s0. component (snd r) ! w = k)) \<and>
     (\<forall>w \<in> D. w \<in> flagged ok s0 \<longrightarrow> component (snd r) ! w \<noteq> 0)"

section \<open>Properties of the complement\<close>

lemma ucast_scast_int_long: "(ucast (scast (x :: 32 word) :: 64 word) :: 32 word) = x"
  by (rule bit_word_eqI) (auto simp: bit_simps)

lemma ucast_long_int_diff: "(ucast (a - b :: 64 word) :: 32 word) = ucast a - ucast b"
proof -
  have "(word_of_int (take_bit 64 (uint a - uint b)) :: 32 word) = word_of_int (uint a - uint b)"
    by (rule wi_bintr) simp
  then have "(word_of_int (uint (a - b)) :: 32 word) = word_of_int (uint a) - word_of_int (uint b)"
    by (simp only: uint_word_arith_bintrs wi_hom_sub len_of_numeral_defs)
       (simp add: uint_word_arith_bintrs)
  then show ?thesis
    by (simp only: ucast_eq)
qed

text \<open>In 32-bit arithmetic the complement is \<open>n - 1 - ival\<close>, whatever the operands.\<close>

lemma compute_complement_low: "compute_complement ival n = ucast n - 1 - ival"
  by (simp add: compute_complement_def ucast_long_int_diff ucast_scast_int_long)

lemma compute_complement_twice: "compute_complement (compute_complement ival n) n = ival"
  by (simp add: compute_complement_low)

lemma compute_complement_fixed_iff:
  "compute_complement ival n = ival \<longleftrightarrow> ucast n - 1 = 2 * ival"
  by (auto simp add: compute_complement_low algebra_simps)

lemma uint_eq_sint_nonneg:
  fixes w :: "'a::len word"
  assumes "0 \<le> sint w"
  shows "uint w = sint w"
proof -
  have "sint w < 2 ^ (LENGTH('a) - 1)" by (rule sint_lt)
  also have "(2::int) ^ (LENGTH('a) - 1) \<le> 2 ^ LENGTH('a)"
    by (rule power_increasing) simp_all
  finally show ?thesis
    using assms by (simp add: uint_sint take_bit_int_eq_self)
qed

lemma compute_complement_fixed_int:
  assumes "0 \<le> sint it" "sint it < sint n" "sint n \<le> 2 ^ 32"
  shows "compute_complement it n = it \<longleftrightarrow> 2 * sint it = sint n - 1"
proof -
  have n: "uint n = sint n"
    using assms(1,2) by (simp add: uint_eq_sint_nonneg)
  have itb: "sint it < 2 ^ 31"
    using sint_lt [of it] by simp
  have a: "(ucast n - 1 :: 32 word) = word_of_int (sint n - 1)"
    by (simp add: ucast_eq n wi_hom_sub [symmetric] del: of_int_uint)
  have b: "2 * it = word_of_int (2 * sint it)"
    by (simp add: wi_hom_mult [symmetric])
  have "(word_of_int (sint n - 1) = (word_of_int (2 * sint it) :: 32 word))
          = (sint n - 1 = 2 * sint it)"
    by (rule word_of_int_inj) (use assms itb in auto)
  then show ?thesis
    unfolding compute_complement_fixed_iff a b by auto
qed

lemma compute_complement_power_of_two:
  assumes "1 \<le> V"
  shows "compute_complement it (2 ^ V) \<noteq> it"
proof
  assume "compute_complement it (2 ^ V) = it"
  then have e: "(ucast (2 ^ V :: 64 word) :: 32 word) - 1 = 2 * it"
    by (simp add: compute_complement_fixed_iff)
  have "(ucast (2 ^ V :: 64 word) :: 32 word) = 2 ^ V"
    by (rule bit_word_eqI) (auto simp: bit_simps)
  then have "even (ucast (2 ^ V :: 64 word) :: 32 word)"
    using assms by simp
  then have "odd ((ucast (2 ^ V :: 64 word) :: 32 word) - 1)"
    by simp
  moreover have "even (2 * it)"
    by simp
  ultimately show False
    using e by simp
qed

text \<open>
  C7. For every table index \<open>it\<close> in \<open>[0, num_table_entries)\<close>, the complement is an
  involution: \<open>Complement (Complement it) = it\<close>, where
  \<open>Complement it = num_table_entries - 1 - it\<close>.
\<close>

theorem Complement_involution:
  assumes "0 \<le> sint it" and "sint it < sint (num_table_entries t)"
  shows "Complement t (Complement t it) = it"
  by (simp add: Complement_def compute_complement_twice)

theorem Complement_involution_witness:
  "0 \<le> sint (5 :: TABLE_INDEX)
   \<and> sint (5 :: TABLE_INDEX) < sint (num_table_entries (table_of_size 16))
   \<and> Complement (table_of_size 16) 5 = 10
   \<and> Complement (table_of_size 16) (Complement (table_of_size 16) 5) = 5"
  using Complement_involution [of 5 "table_of_size 16"]
  by (simp add: table_of_size_def Complement_def compute_complement_def)

text \<open>
  C8. For every table index \<open>it\<close> in \<open>[0, size)\<close>, \<open>complement it \<noteq> it\<close> except where
  \<open>2 * it = size - 1\<close>; in particular, when \<open>size = 2 ^ V\<close> with \<open>V \<ge> 1\<close> the complement
  has no fixed point. The size is a number of table entries, which
  \<^verbatim>\<open>SetNumTableEntries\<close> receives and \<^verbatim>\<open>NumTableEntries\<close> returns as an \<^verbatim>\<open>int\<close>, so
  \<open>size - 1\<close> fits the 32 bits of a table index; \<open>2 ^ V\<close> is a value of the \<^verbatim>\<open>long\<close>
  member for \<open>V \<le> 62\<close>.
\<close>

theorem compute_complement_fixed_point:
  "(0 \<le> sint it \<and> sint it < sint n \<and> sint n \<le> 2 ^ 32
      \<longrightarrow> (compute_complement it n \<noteq> it \<longleftrightarrow> 2 * sint it \<noteq> sint n - 1))
   \<and> (1 \<le> V \<and> V \<le> 62 \<longrightarrow> compute_complement it (2 ^ V) \<noteq> it)"
  using compute_complement_fixed_int [of it n] compute_complement_power_of_two [of V it]
  by blast

theorem compute_complement_fixed_point_witness:
  "(0 \<le> sint (1 :: TABLE_INDEX) \<and> sint (1 :: TABLE_INDEX) < sint (3 :: 64 word)
      \<and> sint (3 :: 64 word) \<le> 2 ^ 32)
   \<and> compute_complement 1 3 = 1 \<and> 2 * sint (1 :: TABLE_INDEX) = sint (3 :: 64 word) - 1
   \<and> (1 \<le> (2 :: nat) \<and> (2 :: nat) \<le> 62)
   \<and> compute_complement 1 (2 ^ 2) \<noteq> 1"
  using compute_complement_fixed_point [of 1 3 2]
  by (simp add: compute_complement_def)

section \<open>The flood fill marks the component of its start vertex\<close>

lemma unvisited_during_flood:
  assumes "flood_inv c ok s0 icomp i P stack s" "icomp \<noteq> 0"
  shows "unvisited ok s w \<longleftrightarrow> unvisited ok s0 w \<and> w \<notin> marked ok s0 icomp s"
proof
  assume u: "unvisited ok s w"
  have "unvisited ok s0 w"
  proof (rule ccontr)
    assume n: "\<not> unvisited ok s0 w"
    have "w < length (component s0)"
      using u assms(1) by (simp add: unvisited_def flood_inv_def)
    then have "component s ! w = component s0 ! w"
      using n assms(1) by (simp add: flood_inv_def)
    then have "unvisited ok s0 w"
      using u assms(1) by (simp add: unvisited_def flood_inv_def)
    then show False using n by simp
  qed
  moreover have "w \<notin> marked ok s0 icomp s"
    using u assms(2) by (auto simp: marked_def unvisited_def)
  ultimately show "unvisited ok s0 w \<and> w \<notin> marked ok s0 icomp s" by simp
next
  assume h: "unvisited ok s0 w \<and> w \<notin> marked ok s0 icomp s"
  then have "component s ! w \<noteq> icomp" by (simp add: marked_def)
  then have "component s ! w = 0"
    using h assms(1) unfolding flood_inv_def by blast
  then show "unvisited ok s w"
    using h assms(1) by (simp add: unvisited_def flood_inv_def)
qed

lemma visit_flood_inv:
  assumes inv: "flood_inv c ok s0 icomp i P stack s" and nz: "icomp \<noteq> 0"
    and v: "v \<in> marked ok s0 icomp s" and w: "w \<in> set (adjacent_vertices c v)"
  shows "flood_inv c ok s0 icomp i P (fst (visit ok icomp w (stack, s))) (snd (visit ok icomp w (stack, s)))
    \<and> marked ok s0 icomp s \<subseteq> marked ok s0 icomp (snd (visit ok icomp w (stack, s)))
    \<and> (unvisited ok s0 w \<longrightarrow> w \<in> marked ok s0 icomp (snd (visit ok icomp w (stack, s))))"
proof (cases "unvisited ok s w")
  case False
  then have "unvisited ok s0 w \<longrightarrow> w \<in> marked ok s0 icomp s"
    using unvisited_during_flood [OF inv nz, of w] by blast
  then show ?thesis
    using False inv by (simp add: visit_def)
next
  case True
  let ?s' = "s\<lparr>component := (component s)[w := icomp]\<rparr>"
  have w0: "unvisited ok s0 w" and wn: "w \<notin> marked ok s0 icomp s"
    using True unvisited_during_flood [OF inv nz, of w] by blast+
  have wl: "w < length (component s)"
    using True by (simp add: unvisited_def)
  have m: "marked ok s0 icomp ?s' = insert w (marked ok s0 icomp s)"
    using w0 wl by (auto simp: marked_def nth_list_update)
  have vT: "v \<in> (fresh_adjacent c ok s0)\<^sup>* `` {i}"
    using v inv unfolding flood_inv_def by blast
  have "unvisited ok s0 v"
    using v by (simp add: marked_def)
  then have "(v, w) \<in> fresh_adjacent c ok s0"
    using w0 w by (simp add: fresh_adjacent_def)
  then have wT: "w \<in> (fresh_adjacent c ok s0)\<^sup>* `` {i}"
    using vT by (auto intro: rtrancl_into_rtrancl)
  have "flood_inv c ok s0 icomp i P (w # stack) ?s'"
    unfolding flood_inv_def m
  proof (intro conjI allI impI)
    show "vertex_flag ?s' = vertex_flag s0"
      using inv by (simp add: flood_inv_def)
    show "length (component ?s') = length (component s0)"
      using inv by (simp add: flood_inv_def)
    show "component ?s' ! x = component s0 ! x"
      if "x < length (component s0) \<and> \<not> unvisited ok s0 x" for x
    proof -
      have "x \<noteq> w" using that w0 by auto
      then show ?thesis using that inv by (simp add: flood_inv_def)
    qed
    show "component ?s' ! x = icomp \<or> component ?s' ! x = 0" if "unvisited ok s0 x" for x
    proof (cases "x = w")
      case True
      then show ?thesis using wl by simp
    next
      case False
      then show ?thesis using that inv by (simp add: flood_inv_def)
    qed
    show "insert w (marked ok s0 icomp s) \<subseteq> (fresh_adjacent c ok s0)\<^sup>* `` {i}"
      using wT inv by (simp add: flood_inv_def)
    show "i \<in> insert w (marked ok s0 icomp s)"
      using inv by (simp add: flood_inv_def)
    show "set (w # stack) \<subseteq> insert w (marked ok s0 icomp s)"
      using inv by (auto simp add: flood_inv_def)
    show "b \<in> insert w (marked ok s0 icomp s)"
      if "a \<in> insert w (marked ok s0 icomp s) \<and> a \<notin> set (w # stack) \<and> a \<notin> P
          \<and> (a, b) \<in> fresh_adjacent c ok s0" for a b
    proof -
      have "a \<in> marked ok s0 icomp s" "a \<notin> set stack" using that by auto
      then have "b \<in> marked ok s0 icomp s"
        using that inv unfolding flood_inv_def by blast
      then show ?thesis by simp
    qed
  qed
  then show ?thesis
    using True m by (auto simp add: visit_def)
qed

lemma fold_visit_flood_inv:
  assumes nz: "icomp \<noteq> 0"
  shows "flood_inv c ok s0 icomp i P (fst r) (snd r) \<Longrightarrow> v \<in> marked ok s0 icomp (snd r)
    \<Longrightarrow> set ws \<subseteq> set (adjacent_vertices c v)
    \<Longrightarrow> flood_inv c ok s0 icomp i P (fst (fold (visit ok icomp) ws r)) (snd (fold (visit ok icomp) ws r))
      \<and> marked ok s0 icomp (snd r) \<subseteq> marked ok s0 icomp (snd (fold (visit ok icomp) ws r))
      \<and> (\<forall>w \<in> set ws. unvisited ok s0 w \<longrightarrow> w \<in> marked ok s0 icomp (snd (fold (visit ok icomp) ws r)))"
proof (induction ws arbitrary: r)
  case Nil
  then show ?case by simp
next
  case (Cons w ws)
  obtain stack s where r: "r = (stack, s)" by (cases r)
  let ?r1 = "visit ok icomp w (stack, s)"
  have step: "flood_inv c ok s0 icomp i P (fst ?r1) (snd ?r1)
      \<and> marked ok s0 icomp s \<subseteq> marked ok s0 icomp (snd ?r1)
      \<and> (unvisited ok s0 w \<longrightarrow> w \<in> marked ok s0 icomp (snd ?r1))"
    using Cons.prems r by (intro visit_flood_inv [OF _ nz]) auto
  then have v1: "v \<in> marked ok s0 icomp (snd ?r1)"
    using Cons.prems(2) r by auto
  have rest: "flood_inv c ok s0 icomp i P (fst (fold (visit ok icomp) ws ?r1)) (snd (fold (visit ok icomp) ws ?r1))
      \<and> marked ok s0 icomp (snd ?r1) \<subseteq> marked ok s0 icomp (snd (fold (visit ok icomp) ws ?r1))
      \<and> (\<forall>w \<in> set ws. unvisited ok s0 w \<longrightarrow> w \<in> marked ok s0 icomp (snd (fold (visit ok icomp) ws ?r1)))"
    using step v1 Cons.prems(3) by (intro Cons.IH) auto
  show ?case
    using step rest r by auto
qed

lemma flood_keeps_inv:
  "icomp \<noteq> 0 \<Longrightarrow> flood_inv c ok s0 icomp i {} stack s
    \<Longrightarrow> flood_inv c ok s0 icomp i {} [] (flood c ok icomp stack s)"
proof (induction c ok icomp stack s rule: flood.induct)
  case (1 c ok icomp s)
  then show ?case by simp
next
  case (2 c ok icomp v stack s)
  let ?r = "fold (visit ok icomp) (adjacent_vertices c v) (stack, s)"
  have inv: "flood_inv c ok s0 icomp i {} (v # stack) s" by fact
  have nz: "icomp \<noteq> 0" by fact
  have vm: "v \<in> marked ok s0 icomp s"
    using inv by (simp add: flood_inv_def)
  have inv1: "flood_inv c ok s0 icomp i {v} stack s"
    using inv unfolding flood_inv_def by auto
  have f: "flood_inv c ok s0 icomp i {v} (fst ?r) (snd ?r)
      \<and> marked ok s0 icomp s \<subseteq> marked ok s0 icomp (snd ?r)
      \<and> (\<forall>w \<in> set (adjacent_vertices c v). unvisited ok s0 w \<longrightarrow> w \<in> marked ok s0 icomp (snd ?r))"
    using fold_visit_flood_inv [OF nz, of c ok s0 i "{v}" "(stack, s)" v "adjacent_vertices c v"]
      inv1 vm by simp
  have inv2: "flood_inv c ok s0 icomp i {} (fst ?r) (snd ?r)"
    unfolding flood_inv_def
  proof (intro conjI allI impI)
    show "b \<in> marked ok s0 icomp (snd ?r)"
      if h: "a \<in> marked ok s0 icomp (snd ?r) \<and> a \<notin> set (fst ?r) \<and> a \<notin> {}
          \<and> (a, b) \<in> fresh_adjacent c ok s0" for a b
    proof (cases "a = v")
      case True
      then have "b \<in> set (adjacent_vertices c v)" "unvisited ok s0 b"
        using h by (auto simp: fresh_adjacent_def)
      then show ?thesis using f by blast
    next
      case False
      then show ?thesis
        using h f unfolding flood_inv_def by blast
    qed
  qed (use f in \<open>auto simp: flood_inv_def\<close>)
  have "flood_inv c ok s0 icomp i {} [] (flood c ok icomp (fst ?r) (snd ?r))"
    using nz inv2 by (intro "2.IH") auto
  then show ?case
    using nz by (simp add: Let_def)
qed

lemma flood_inv_final:
  assumes "flood_inv c ok s0 icomp i {} [] s"
  shows "marked ok s0 icomp s = (fresh_adjacent c ok s0)\<^sup>* `` {i}"
proof
  show "marked ok s0 icomp s \<subseteq> (fresh_adjacent c ok s0)\<^sup>* `` {i}"
    using assms by (simp add: flood_inv_def)
  have "b \<in> marked ok s0 icomp s" if "(i, b) \<in> (fresh_adjacent c ok s0)\<^sup>*" for b
    using that
  proof (induction rule: rtrancl_induct)
    case base
    show ?case using assms by (simp add: flood_inv_def)
  next
    case (step y z)
    then show ?case using assms unfolding flood_inv_def by auto
  qed
  then show "(fresh_adjacent c ok s0)\<^sup>* `` {i} \<subseteq> marked ok s0 icomp s"
    by auto
qed

lemma search_from_unfold:
  assumes u: "unvisited ok s0 i"
  shows "search_from c ok s0 i icomp = flood c ok icomp [i] (s0\<lparr>component := (component s0)[i := icomp]\<rparr>)"
  using u by (simp add: search_from_def visit_def Let_def del: flood.simps)

lemma marked_start:
  assumes u: "unvisited ok s0 i" and nz: "icomp \<noteq> 0"
  shows "marked ok s0 icomp (s0\<lparr>component := (component s0)[i := icomp]\<rparr>) = {i}"
proof -
  have il: "i < length (component s0)"
    using u by (simp add: unvisited_def)
  have "component s0 ! w = 0" if "unvisited ok s0 w" for w
    using that by (simp add: unvisited_def)
  then have "w = i" if "unvisited ok s0 w" "(component s0)[i := icomp] ! w = icomp" for w
    using that nz by (cases "w = i") auto
  moreover have "(component s0)[i := icomp] ! i = icomp"
    using il by simp
  ultimately show ?thesis
    using u unfolding marked_def by auto
qed

lemma flood_inv_fresh:
  assumes "flood_inv c ok s0 icomp i P stack s" "unvisited ok s0 w"
  shows "component s ! w = icomp \<or> component s ! w = 0"
  using assms by (simp add: flood_inv_def)

lemma flood_inv_old:
  assumes "flood_inv c ok s0 icomp i P stack s" "w < length (component s0)" "\<not> unvisited ok s0 w"
  shows "component s ! w = component s0 ! w"
  using assms by (simp add: flood_inv_def)

lemma flood_inv_start:
  assumes u: "unvisited ok s0 i" and nz: "icomp \<noteq> 0"
  shows "flood_inv c ok s0 icomp i {} [i] (s0\<lparr>component := (component s0)[i := icomp]\<rparr>)"
proof -
  let ?s1 = "s0\<lparr>component := (component s0)[i := icomp]\<rparr>"
  have il: "i < length (component s0)"
    using u by (simp add: unvisited_def)
  have m1: "marked ok s0 icomp ?s1 = {i}"
    using u nz by (rule marked_start)
  have a: "component ?s1 ! x = component s0 ! x"
    if "x < length (component s0) \<and> \<not> unvisited ok s0 x" for x
  proof -
    have "x \<noteq> i" using that u by auto
    then show ?thesis by simp
  qed
  have b: "component ?s1 ! x = icomp \<or> component ?s1 ! x = 0" if "unvisited ok s0 x" for x
  proof (cases "x = i")
    case True
    then show ?thesis using il by simp
  next
    case False
    then show ?thesis using that by (simp add: unvisited_def)
  qed
  have c: "{i} \<subseteq> (fresh_adjacent c ok s0)\<^sup>* `` {i}"
    by (simp add: Image_iff)
  show ?thesis
    unfolding flood_inv_def m1
  proof (intro conjI allI impI)
    show "{i} \<subseteq> (fresh_adjacent c ok s0)\<^sup>* `` {i}" by (rule c)
    show "component ?s1 ! w = component s0 ! w"
      if "w < length (component s0) \<and> \<not> unvisited ok s0 w" for w
      using that by (rule a)
    show "component ?s1 ! w = icomp \<or> component ?s1 ! w = 0" if "unvisited ok s0 w" for w
      using that by (rule b)
  qed simp_all
qed

lemma search_from_result:
  assumes u: "unvisited ok s0 i" and nz: "icomp \<noteq> 0"
  shows "vertex_flag (search_from c ok s0 i icomp) = vertex_flag s0"
    and "length (component (search_from c ok s0 i icomp)) = length (component s0)"
    and "w < length (component s0) \<Longrightarrow> component (search_from c ok s0 i icomp) ! w =
          (if w \<in> (fresh_adjacent c ok s0)\<^sup>* `` {i} then icomp else component s0 ! w)"
proof -
  let ?s' = "search_from c ok s0 i icomp"
  let ?T = "(fresh_adjacent c ok s0)\<^sup>* `` {i}"
  have fin: "flood_inv c ok s0 icomp i {} [] ?s'"
    unfolding search_from_unfold [OF u]
    by (rule flood_keeps_inv [OF nz flood_inv_start [OF u nz]])
  then have mT: "marked ok s0 icomp ?s' = ?T"
    by (rule flood_inv_final)
  show "vertex_flag ?s' = vertex_flag s0"
    using fin by (simp add: flood_inv_def)
  show "length (component ?s') = length (component s0)"
    using fin by (simp add: flood_inv_def)
  show "component ?s' ! w = (if w \<in> ?T then icomp else component s0 ! w)"
    if wl: "w < length (component s0)"
  proof (cases "w \<in> ?T")
    case True
    then have "w \<in> marked ok s0 icomp ?s'" using mT by simp
    then show ?thesis using True by (simp add: marked_def)
  next
    case False
    show ?thesis
    proof (cases "unvisited ok s0 w")
      case True
      have "component ?s' ! w = icomp \<or> component ?s' ! w = 0"
        using True by (rule flood_inv_fresh [OF fin])
      moreover have "component ?s' ! w \<noteq> icomp"
      proof
        assume "component ?s' ! w = icomp"
        then have "w \<in> marked ok s0 icomp ?s'" using True by (simp add: marked_def)
        then show False using False mT by simp
      qed
      moreover have "component s0 ! w = 0"
        using True by (simp add: unvisited_def)
      ultimately show ?thesis using False by simp
    next
      case nu: False
      have "component ?s' ! w = component s0 ! w"
        using wl nu by (rule flood_inv_old [OF fin])
      then show ?thesis using False by simp
    qed
  qed
qed

section \<open>The counting loop counts the connected components\<close>

lemma set_adjacent_vertices:
  "set (adjacent_vertices c v) =
     {w. \<exists>e<NumEdges c. EdgeEndpoint c e = (v, w) \<or> EdgeEndpoint c e = (w, v)}"
  by (auto simp: adjacent_vertices_def split: prod.splits if_splits)

lemma adjacent_vertices_sym:
  "b \<in> set (adjacent_vertices c a) \<longleftrightarrow> a \<in> set (adjacent_vertices c b)"
  unfolding set_adjacent_vertices by auto

lemma sym_class_adjacent: "sym (class_adjacent c ok s)"
  unfolding sym_def class_adjacent_def using adjacent_vertices_sym by auto

lemma unvisited_iff_flagged:
  "unvisited ok s w \<longleftrightarrow> w \<in> flagged ok s \<and> component s ! w = 0"
  by (auto simp: unvisited_def flagged_def)

lemma fresh_adjacent_le: "fresh_adjacent c ok s \<subseteq> class_adjacent c ok s"
  by (auto simp: fresh_adjacent_def class_adjacent_def unvisited_iff_flagged)

lemma fresh_reach_unvisited:
  assumes "unvisited ok s i" "(i, x) \<in> (fresh_adjacent c ok s)\<^sup>*"
  shows "unvisited ok s x"
  using assms(2,1) by (induction rule: rtrancl_induct) (auto simp: fresh_adjacent_def)

text \<open>Labels constant along edges: the fresh region of i is its whole class component.\<close>

lemma fresh_reach_eq:
  assumes u: "unvisited ok s i"
    and const: "\<And>a b. (a, b) \<in> class_adjacent c ok s \<Longrightarrow> component s ! a = component s ! b"
  shows "(fresh_adjacent c ok s)\<^sup>* `` {i} = (class_adjacent c ok s)\<^sup>* `` {i}"
proof
  show "(fresh_adjacent c ok s)\<^sup>* `` {i} \<subseteq> (class_adjacent c ok s)\<^sup>* `` {i}"
    using rtrancl_mono [OF fresh_adjacent_le [of c ok s]] by auto
  have "(i, x) \<in> (fresh_adjacent c ok s)\<^sup>*" if "(i, x) \<in> (class_adjacent c ok s)\<^sup>*" for x
    using that
  proof (induction rule: rtrancl_induct)
    case base
    show ?case by simp
  next
    case (step y z)
    have uy: "unvisited ok s y"
      using u step.IH by (rule fresh_reach_unvisited)
    have "component s ! z = component s ! y"
      using const [OF step.hyps(2)] by simp
    moreover have "z \<in> flagged ok s" "z \<in> set (adjacent_vertices c y)"
      using step.hyps(2) by (auto simp: class_adjacent_def)
    ultimately have "(y, z) \<in> fresh_adjacent c ok s"
      using uy by (simp add: fresh_adjacent_def unvisited_iff_flagged)
    then show ?case
      using step.IH by (rule rtrancl_into_rtrancl [rotated])
  qed
  then show "(class_adjacent c ok s)\<^sup>* `` {i} \<subseteq> (fresh_adjacent c ok s)\<^sup>* `` {i}"
    by auto
qed

lemma flagged_cong:
  assumes "vertex_flag s = vertex_flag s0" "length (component s) = length (component s0)"
  shows "flagged ok s = flagged ok s0" and "class_adjacent c ok s = class_adjacent c ok s0"
  using assms by (simp_all add: flagged_def class_adjacent_def)

lemma count_step_search:
  assumes inv: "count_inv c ok s0 D (num, s)" and u: "unvisited ok s i"
  shows "count_inv c ok s0 (insert i D) (Suc num, search_from c ok s i (Suc num))"
proof -
  let ?s' = "search_from c ok s i (Suc num)"
  let ?G = "class_adjacent c ok s0"
  let ?Fl = "flagged ok s0"
  let ?T = "?G\<^sup>* `` {i}"
  have vf: "vertex_flag s = vertex_flag s0" and ln: "length (component s) = length (component s0)"
    using inv by (simp_all add: count_inv_def)
  have Fl: "flagged ok s = ?Fl" and G: "class_adjacent c ok s = ?G"
    using flagged_cong [OF vf ln] by simp_all
  have le: "\<And>w. w \<in> ?Fl \<Longrightarrow> component s ! w \<le> num"
    using inv by (simp add: count_inv_def)
  have const: "\<And>a b. (a, b) \<in> ?G \<Longrightarrow> component s ! a = component s ! b"
    using inv by (simp add: count_inv_def)
  have same: "\<And>a b. a \<in> ?Fl \<Longrightarrow> b \<in> ?Fl \<Longrightarrow> component s ! a = component s ! b
      \<Longrightarrow> component s ! a \<noteq> 0 \<Longrightarrow> (a, b) \<in> ?G\<^sup>*"
    using inv by (simp add: count_inv_def)
  have ex: "\<And>k. 1 \<le> k \<Longrightarrow> k \<le> num \<Longrightarrow> \<exists>w \<in> ?Fl. component s ! w = k"
    using inv by (simp add: count_inv_def)
  have dn: "\<And>w. w \<in> D \<Longrightarrow> w \<in> ?Fl \<Longrightarrow> component s ! w \<noteq> 0"
    using inv by (simp add: count_inv_def)
  have T: "(fresh_adjacent c ok s)\<^sup>* `` {i} = ?T"
    using fresh_reach_eq [OF u, of c] const unfolding G by simp
  have T0: "unvisited ok s x" if "x \<in> ?T" for x
  proof -
    have "(i, x) \<in> (fresh_adjacent c ok s)\<^sup>*" using that T by auto
    then show ?thesis using u by (rule fresh_reach_unvisited [rotated])
  qed
  have TFl: "x \<in> ?Fl" and Tz: "component s ! x = 0" if "x \<in> ?T" for x
    using T0 [OF that] Fl by (simp_all add: unvisited_iff_flagged)
  have iT: "i \<in> ?T" by (simp add: Image_iff)
  have Fln: "w < length (component s)" if "w \<in> ?Fl" for w
    using that ln by (simp add: flagged_def)
  have vf': "vertex_flag ?s' = vertex_flag s0"
    using search_from_result(1) [OF u, of "Suc num" c] vf by simp
  have ln': "length (component ?s') = length (component s0)"
    using search_from_result(2) [OF u, of "Suc num" c] ln by simp
  have val: "component ?s' ! w = (if w \<in> ?T then Suc num else component s ! w)" if "w \<in> ?Fl" for w
    using search_from_result(3) [OF u _ Fln [OF that], of "Suc num" c] T by simp
  have symG: "sym (?G\<^sup>*)"
    by (rule sym_rtrancl) (rule sym_class_adjacent)
  have Tstep: "b \<in> ?T" if "a \<in> ?T" "(a, b) \<in> ?G" for a b
  proof -
    have "(i, a) \<in> ?G\<^sup>*" using that(1) by simp
    then have "(i, b) \<in> ?G\<^sup>*" using that(2) by (rule rtrancl_into_rtrancl)
    then show ?thesis by simp
  qed
  have Gsym: "(b, a) \<in> ?G" if "(a, b) \<in> ?G" for a b
    using that sym_class_adjacent [of c ok s0] by (simp add: sym_def)
  have p1: "component ?s' ! w \<le> Suc num" if "w \<in> ?Fl" for w
    using val [OF that] le [OF that] by simp
  have p2: "component ?s' ! a = component ?s' ! b" if ab: "(a, b) \<in> ?G" for a b
  proof -
    have a: "a \<in> ?Fl" and b: "b \<in> ?Fl" using ab by (simp_all add: class_adjacent_def)
    have "a \<in> ?T \<longleftrightarrow> b \<in> ?T"
      using Tstep [OF _ ab] Tstep [OF _ Gsym [OF ab]] by auto
    then show ?thesis
      using val [OF a] val [OF b] const [OF ab] by simp
  qed
  have p3: "(a, b) \<in> ?G\<^sup>*"
    if a: "a \<in> ?Fl" and b: "b \<in> ?Fl" and eq: "component ?s' ! a = component ?s' ! b"
      and nz: "component ?s' ! a \<noteq> 0" for a b
  proof (cases "a \<in> ?T")
    case True
    have "b \<in> ?T"
    proof (rule ccontr)
      assume "b \<notin> ?T"
      then have "component s ! b = Suc num"
        using eq val [OF a] val [OF b] True by simp
      then show False using le [OF b] by simp
    qed
    then have "(i, b) \<in> ?G\<^sup>*" by simp
    moreover have "(a, i) \<in> ?G\<^sup>*"
      using True symG by (simp add: sym_def)
    ultimately show ?thesis by (rule rtrancl_trans [rotated])
  next
    case False
    have "b \<notin> ?T"
    proof
      assume "b \<in> ?T"
      then have "component s ! a = Suc num"
        using eq val [OF a] val [OF b] False by simp
      then show False using le [OF a] by simp
    qed
    then show ?thesis
      using same [OF a b] eq nz val [OF a] val [OF b] False by simp
  qed
  have p4: "\<exists>w \<in> ?Fl. component ?s' ! w = k" if k: "1 \<le> k" "k \<le> Suc num" for k
  proof (cases "k = Suc num")
    case True
    then show ?thesis using val [OF TFl [OF iT]] iT TFl [OF iT] by auto
  next
    case False
    then obtain w where w: "w \<in> ?Fl" "component s ! w = k"
      using ex [of k] k by auto
    then have "w \<notin> ?T" using Tz [of w] k by auto
    then show ?thesis using val [OF w(1)] w by auto
  qed
  have p5: "component ?s' ! w \<noteq> 0" if w: "w \<in> insert i D" "w \<in> ?Fl" for w
  proof (cases "w \<in> ?T")
    case True
    then show ?thesis using val [OF w(2)] by simp
  next
    case False
    then have "w \<noteq> i" using iT by auto
    then have "w \<in> D" using w by simp
    then show ?thesis using dn [OF _ w(2)] val [OF w(2)] False by simp
  qed
  show ?thesis
    unfolding count_inv_def fst_conv snd_conv
    using vf' ln' p1 p2 p3 p4 p5 by (intro conjI ballI allI impI) auto
qed

lemma count_step_inv:
  assumes inv: "count_inv c ok s0 D r"
  shows "count_inv c ok s0 (insert i D) (count_step c ok i r)"
proof -
  obtain num s where r: "r = (num, s)" by (cases r)
  show ?thesis
  proof (cases "unvisited ok s i")
    case True
    then show ?thesis
      using count_step_search [of c ok s0 D num s i] inv r by (simp add: count_step_def)
  next
    case False
    have vf: "vertex_flag s = vertex_flag s0" and ln: "length (component s) = length (component s0)"
      using inv r by (simp_all add: count_inv_def)
    have "component s ! i \<noteq> 0" if "i \<in> flagged ok s0"
      using False that flagged_cong(1) [OF vf ln, of ok] by (simp add: unvisited_iff_flagged)
    then have "count_inv c ok s0 (insert i D) (num, s)"
      using inv r unfolding count_inv_def by simp
    then show ?thesis
      using False r by (simp add: count_step_def)
  qed
qed

lemma fold_count_step_inv:
  "count_inv c ok s0 D r \<Longrightarrow> count_inv c ok s0 (D \<union> set vs) (fold (count_step c ok) vs r)"
proof (induction vs arbitrary: D r)
  case Nil
  then show ?case by simp
next
  case (Cons v vs)
  have "count_inv c ok s0 (insert v D) (count_step c ok v r)"
    using Cons.prems by (rule count_step_inv)
  then have "count_inv c ok s0 (insert v D \<union> set vs) (fold (count_step c ok) vs (count_step c ok v r))"
    by (rule Cons.IH)
  then show ?case by simp
qed

lemma count_inv_start:
  assumes "\<And>w. w < length (component s0) \<Longrightarrow> component s0 ! w = 0"
  shows "count_inv c ok s0 {} (0, s0)"
proof -
  have "component s0 ! w = 0" if "w \<in> flagged ok s0" for w
    using that assms by (simp add: flagged_def)
  then have z: "\<And>w. w \<in> flagged ok s0 \<Longrightarrow> component s0 ! w = 0" .
  have "component s0 ! a = component s0 ! b" if "(a, b) \<in> class_adjacent c ok s0" for a b
    using that z [of a] z [of b] by (simp add: class_adjacent_def)
  then show ?thesis
    unfolding count_inv_def fst_conv snd_conv using z by simp
qed

text \<open>When every flagged vertex has been treated, the counter is the number of classes.\<close>

lemma class_reach_label:
  assumes const: "\<And>a b. (a, b) \<in> class_adjacent c ok s0 \<Longrightarrow> lab a = lab b"
    and v: "v \<in> flagged ok s0" and r: "(v, x) \<in> (class_adjacent c ok s0)\<^sup>*"
  shows "x \<in> flagged ok s0 \<and> lab x = (lab v :: nat)"
  using r
proof (induction rule: rtrancl_induct)
  case base
  show ?case using v by simp
next
  case (step y z)
  have "z \<in> flagged ok s0"
    using step.hyps(2) by (simp add: class_adjacent_def)
  moreover have "lab y = lab z"
    using step.hyps(2) by (rule const)
  ultimately show ?case
    using step.IH by simp
qed

lemma count_inv_card:
  assumes inv: "count_inv c ok s0 D (num, s)" and all: "flagged ok s0 \<subseteq> D"
  shows "card ((\<lambda>v. (class_adjacent c ok s0)\<^sup>* `` {v}) ` flagged ok s0) = num"
proof -
  define G where "G = class_adjacent c ok s0"
  define Fl where "Fl = flagged ok s0"
  define lab where "lab = (\<lambda>w. component s ! w)"
  define g where "g = (\<lambda>k. {w \<in> Fl. lab w = k})"
  have le: "lab w \<le> num" if "w \<in> Fl" for w
    using inv that by (simp add: count_inv_def Fl_def lab_def)
  have const: "lab a = lab b" if "(a, b) \<in> class_adjacent c ok s0" for a b
    using inv that by (simp add: count_inv_def lab_def)
  have same: "(a, b) \<in> G\<^sup>*" if "a \<in> Fl" "b \<in> Fl" "lab a = lab b" "lab a \<noteq> 0" for a b
    using inv that by (simp add: count_inv_def Fl_def lab_def G_def)
  have ex: "\<exists>w \<in> Fl. lab w = k" if "1 \<le> k" "k \<le> num" for k
    using inv that by (simp add: count_inv_def Fl_def lab_def)
  have nzD: "lab w \<noteq> 0" if "w \<in> D" "w \<in> Fl" for w
    using inv that by (simp add: count_inv_def Fl_def lab_def)
  have nz: "lab w \<noteq> 0" if "w \<in> Fl" for w
  proof -
    have "w \<in> D" using that all by (auto simp: Fl_def)
    then show ?thesis using that by (rule nzD)
  qed
  have cls: "G\<^sup>* `` {v} = g (lab v)" if v: "v \<in> Fl" for v
  proof (rule set_eqI)
    fix x
    show "x \<in> G\<^sup>* `` {v} \<longleftrightarrow> x \<in> g (lab v)"
    proof
      assume "x \<in> G\<^sup>* `` {v}"
      then have "(v, x) \<in> (class_adjacent c ok s0)\<^sup>*" by (simp add: G_def)
      then have "x \<in> flagged ok s0 \<and> lab x = lab v"
        using const v by (intro class_reach_label) (simp_all add: Fl_def)
      then show "x \<in> g (lab v)" by (simp add: g_def Fl_def)
    next
      assume "x \<in> g (lab v)"
      then have x: "x \<in> Fl" "lab v = lab x" by (simp_all add: g_def)
      have "(v, x) \<in> G\<^sup>*"
        using v x(1) x(2) nz [OF v] by (rule same)
      then show "x \<in> G\<^sup>* `` {v}" by simp
    qed
  qed
  have img: "(\<lambda>v. G\<^sup>* `` {v}) ` Fl = g ` {1..num}"
  proof (rule set_eqI)
    fix X
    show "X \<in> (\<lambda>v. G\<^sup>* `` {v}) ` Fl \<longleftrightarrow> X \<in> g ` {1..num}"
    proof
      assume "X \<in> (\<lambda>v. G\<^sup>* `` {v}) ` Fl"
      then obtain v where v: "v \<in> Fl" "X = G\<^sup>* `` {v}" by (rule imageE)
      have "lab v \<in> {1..num}"
        using le [OF v(1)] nz [OF v(1)] by simp
      then have "g (lab v) \<in> g ` {1..num}" by (rule imageI)
      then show "X \<in> g ` {1..num}"
        by (simp only: v(2) cls [OF v(1)])
    next
      assume "X \<in> g ` {1..num}"
      then obtain k where k: "k \<in> {1..num}" "X = g k" by (rule imageE)
      have "1 \<le> k" "k \<le> num" using k(1) by simp_all
      then have "\<exists>w \<in> Fl. lab w = k" by (rule ex)
      then obtain w where w: "w \<in> Fl" "lab w = k" by (rule bexE)
      have "G\<^sup>* `` {w} \<in> (\<lambda>v. G\<^sup>* `` {v}) ` Fl"
        using w(1) by (rule imageI)
      then show "X \<in> (\<lambda>v. G\<^sup>* `` {v}) ` Fl"
        by (simp only: k(2) cls [OF w(1)] w(2))
    qed
  qed
  have inj: "inj_on g {1..num}"
  proof (rule inj_onI)
    fix k k' assume k: "k \<in> {1..num}" and k': "k' \<in> {1..num}" and eq: "g k = g k'"
    have "1 \<le> k" "k \<le> num" using k by simp_all
    then have "\<exists>w \<in> Fl. lab w = k" by (rule ex)
    then obtain w where w: "w \<in> Fl" "lab w = k" by (rule bexE)
    then have "w \<in> g k" by (simp add: g_def)
    then have "w \<in> g k'" by (simp only: eq)
    then show "k = k'" using w by (simp add: g_def)
  qed
  have "card (g ` {1..num}) = card {1..num}"
    using inj by (rule card_image)
  then have "card ((\<lambda>v. G\<^sup>* `` {v}) ` Fl) = num"
    by (simp only: img) simp
  then show ?thesis
    by (simp only: G_def Fl_def)
qed

lemma prepare_fields:
  "length (vertex_flag (prepare s ientry fp)) = num_cube_vertices s"
  "component (prepare s ientry fp) = replicate (num_cube_vertices s) 0"
  "w < num_cube_vertices s \<Longrightarrow> vertex_flag (prepare s ientry fp) ! w \<longleftrightarrow> (bit ientry w \<longleftrightarrow> fp)"
  by (simp_all add: prepare_def SetVertexFlags_def NegateVertexFlags_def ClearAll_def Let_def)

lemma flagged_prepare:
  assumes "num_cube_vertices s = NumVertices c"
  shows "flagged (\<lambda>w. True) (prepare s ientry fp) = sign_class c ientry fp"
  using assms by (auto simp: flagged_def sign_class_def prepare_fields)

lemma class_adjacent_prepare:
  assumes "num_cube_vertices s = NumVertices c"
  shows "class_adjacent c (\<lambda>w. True) (prepare s ientry fp) = same_sign_adjacent c ientry fp"
  unfolding class_adjacent_def same_sign_adjacent_def flagged_prepare [OF assms] set_adjacent_vertices
  by auto

lemma ComputeNumComponents_count:
  assumes n: "num_cube_vertices s = NumVertices c"
  shows "fst (ComputeNumComponents c s ientry fp) = num_connected_components c ientry fp"
proof -
  let ?s0 = "prepare s ientry fp"
  let ?ok = "\<lambda>w::nat. True"
  let ?r = "fold (count_step c ?ok) [0..<num_cube_vertices s] (0, ?s0)"
  have "count_inv c ?ok ?s0 {} (0, ?s0)"
    by (rule count_inv_start) (simp add: prepare_fields)
  then have "count_inv c ?ok ?s0 ({} \<union> set [0..<num_cube_vertices s]) ?r"
    by (rule fold_count_step_inv)
  then have inv: "count_inv c ?ok ?s0 (set [0..<num_cube_vertices s]) (fst ?r, snd ?r)"
    by simp
  have sub: "flagged ?ok ?s0 \<subseteq> set [0..<num_cube_vertices s]"
    by (auto simp: flagged_def prepare_fields)
  have "card ((\<lambda>v. (class_adjacent c ?ok ?s0)\<^sup>* `` {v}) ` flagged ?ok ?s0) = fst ?r"
    using inv sub by (rule count_inv_card)
  then show ?thesis
    unfolding flagged_prepare [OF n] class_adjacent_prepare [OF n]
    by (simp add: ComputeNumComponents_def num_connected_components_def)
qed

section \<open>Active facets\<close>

lemma mask_test: "(push_bit jv 1 AND (e :: TABLE_INDEX) = 0) \<longleftrightarrow> \<not> bit e jv"
  by (simp add: and.commute bit_iff_and_push_bit_not_eq_0)

lemma fold_count_two:
  "fold (\<lambda>j (a, b). if P j then (a + 1, b) else (a, b + 1)) xs (a0, b0)
     = (a0 + length (filter P xs), b0 + length (filter (\<lambda>j. \<not> P j) xs))"
  by (induction xs arbitrary: a0 b0) auto

lemma fold_count_one:
  "fold (\<lambda>j n. if P j then n + 1 else n) xs (n0::nat) = n0 + length (filter P xs)"
  by (induction xs arbitrary: n0) auto

lemma length_filter_upt_card: "length (filter P [0..<n]) = card {i. i < n \<and> P i}"
proof -
  have "card (set (filter P [0..<n])) = length (filter P [0..<n])"
    by (rule distinct_card) simp
  moreover have "set (filter P [0..<n]) = {i. i < n \<and> P i}"
    by auto
  ultimately show ?thesis by simp
qed

lemma length_filter_pos: "0 < length (filter P [0..<n]) \<longleftrightarrow> (\<exists>j<n. P j)"
  by (auto simp: filter_empty_conv)

lemma ComputeNumCubeFacetBits_eq:
  "ComputeNumCubeFacetBits c ientry f =
     (length (filter (\<lambda>j. \<not> bit ientry (FacetVertex c f j)) [0..<NumFacetVertices c]),
      length (filter (\<lambda>j. bit ientry (FacetVertex c f j)) [0..<NumFacetVertices c]))"
  unfolding ComputeNumCubeFacetBits_def Let_def mask_test
  by (simp add: fold_count_two)

lemma IsCubeFacetActive_iff:
  "IsCubeFacetActive c ientry f \<longleftrightarrow> facet_has_positive c ientry f \<and> facet_has_negative c ientry f"
  by (auto simp add: IsCubeFacetActive_def ComputeNumCubeFacetBits_eq length_filter_pos
      facet_has_positive_def facet_has_negative_def simp del: length_greater_0_conv)

lemma ComputeNumActiveCubeFacets_eq:
  "ComputeNumActiveCubeFacets c ientry = card {f. f < NumFacets c \<and> IsCubeFacetActive c ientry f}"
  by (simp add: ComputeNumActiveCubeFacets_def fold_count_one length_filter_upt_card)

lemma less_4_cases: "(f::nat) < 4 \<longleftrightarrow> f = 0 \<or> f = 1 \<or> f = 2 \<or> f = 3"
  by auto

lemma less_2_cases: "(j::nat) < 2 \<longleftrightarrow> j = 0 \<or> j = 1"
  by auto

lemma square_facet_vertices: "facet_vertices_below square 4"
  by (auto simp add: facet_vertices_below_def square_def less_4_cases less_2_cases)

text \<open>
  C4. For every table index \<open>ientry\<close>, \<^verbatim>\<open>ComputeNumActiveCubeFacets\<close> returns the number of
  facets of the cube that hold at least one vertex whose bit in \<open>ientry\<close> is 1 and at
  least one vertex whose bit is 0; and \<^verbatim>\<open>IsCubeFacetActive\<close> is true of a facet if and
  only if the facet has both a positive and a negative vertex. The vertex indices are
  below 32, the width of a table index, as the shift in the source requires.
\<close>

theorem ComputeNumActiveCubeFacets_correct:
  assumes "facet_vertices_below c 32"
  shows "ComputeNumActiveCubeFacets c ientry = num_crossed_facets c ientry
         \<and> (\<forall>f<NumFacets c. IsCubeFacetActive c ientry f
               \<longleftrightarrow> facet_has_positive c ientry f \<and> facet_has_negative c ientry f)"
  by (simp add: ComputeNumActiveCubeFacets_eq IsCubeFacetActive_iff num_crossed_facets_def)

theorem ComputeNumActiveCubeFacets_correct_witness:
  "facet_vertices_below square 32
   \<and> ComputeNumActiveCubeFacets square 1 = 2 \<and> num_crossed_facets square 1 = 2
   \<and> IsCubeFacetActive square 1 0 \<and> facet_has_positive square 1 0 \<and> facet_has_negative square 1 0
   \<and> \<not> IsCubeFacetActive square 1 1"
proof -
  have h: "facet_vertices_below square 32"
    by (auto simp add: facet_vertices_below_def square_def less_4_cases less_2_cases)
  have n: "(0::nat) < NumFacets square" "(1::nat) < NumFacets square"
    by (simp_all add: square_def)
  have a: "ComputeNumActiveCubeFacets square 1 = 2"
    by code_simp
  have b: "IsCubeFacetActive square 1 0" "\<not> IsCubeFacetActive square 1 1"
    by code_simp+
  show ?thesis
    using ComputeNumActiveCubeFacets_correct [OF h, of 1] h a b n by auto
qed

lemma uint_2p_take_bit: "take_bit V (uint (2 ^ V :: 'a::len word)) = 0"
proof -
  have "take_bit V (2 ^ V :: 'a word) = 0"
    by (simp add: take_bit_eq_0_iff)
  then have "uint (take_bit V (2 ^ V :: 'a word)) = 0"
    by simp
  then show ?thesis
    by (simp only: unsigned_take_bit_eq)
qed

lemma bit_word_add_2p:
  fixes x :: "'a::len word"
  assumes "v < V"
  shows "bit (x + 2 ^ V) v \<longleftrightarrow> bit x v"
proof -
  have "take_bit V (uint x + uint (2 ^ V :: 'a word))
          = take_bit V (take_bit V (uint x) + take_bit V (uint (2 ^ V :: 'a word)))"
    by (simp only: take_bit_add)
  then have t: "take_bit V (uint x + uint (2 ^ V :: 'a word)) = take_bit V (uint x)"
    by (simp add: uint_2p_take_bit)
  have "bit (x + 2 ^ V) v \<longleftrightarrow> v < LENGTH('a) \<and> bit (uint (x + 2 ^ V)) v"
    by (auto simp add: bit_uint_iff dest: bit_imp_le_length)
  also have "\<dots> \<longleftrightarrow> v < LENGTH('a) \<and> bit (uint x + uint (2 ^ V :: 'a word)) v"
    by (auto simp add: uint_word_arith_bintrs bit_take_bit_iff)
  also have "\<dots> \<longleftrightarrow> v < LENGTH('a) \<and> bit (take_bit V (uint x + uint (2 ^ V :: 'a word))) v"
    using assms by (simp add: bit_take_bit_iff)
  also have "\<dots> \<longleftrightarrow> v < LENGTH('a) \<and> bit (uint x) v"
    unfolding t using assms by (simp add: bit_take_bit_iff)
  also have "\<dots> \<longleftrightarrow> bit x v"
    by (auto simp add: bit_uint_iff dest: bit_imp_le_length)
  finally show ?thesis .
qed

lemma bit_compute_complement:
  assumes "v < V" "v < 32"
  shows "bit (compute_complement it (2 ^ V)) v \<longleftrightarrow> \<not> bit it v"
proof -
  have p: "(ucast (2 ^ V :: 64 word) :: 32 word) = 2 ^ V"
    by (rule bit_word_eqI) (auto simp: bit_simps)
  have "compute_complement it (2 ^ V) = NOT it + 2 ^ V"
    by (simp add: compute_complement_low p not_eq_complement)
  then show ?thesis
    using assms by (simp add: bit_word_add_2p bit_not_iff)
qed

lemma facet_signs_complement:
  assumes wf: "facet_vertices_below c V" and V: "V < 32" and f: "f < NumFacets c"
  shows "facet_has_positive c (compute_complement it (2 ^ V)) f \<longleftrightarrow> facet_has_negative c it f"
    and "facet_has_negative c (compute_complement it (2 ^ V)) f \<longleftrightarrow> facet_has_positive c it f"
proof -
  have "bit (compute_complement it (2 ^ V)) (FacetVertex c f j) \<longleftrightarrow> \<not> bit it (FacetVertex c f j)"
    if "j < NumFacetVertices c" for j
  proof -
    have "FacetVertex c f j < V"
      using wf f that by (simp add: facet_vertices_below_def)
    then show ?thesis
      using V by (intro bit_compute_complement) auto
  qed
  then show "facet_has_positive c (compute_complement it (2 ^ V)) f \<longleftrightarrow> facet_has_negative c it f"
    and "facet_has_negative c (compute_complement it (2 ^ V)) f \<longleftrightarrow> facet_has_positive c it f"
    by (auto simp: facet_has_positive_def facet_has_negative_def)
qed

text \<open>
  C10. Facet activity is invariant under the complement: for every table index
  \<open>ientry\<close> in \<open>[0, 2 ^ V)\<close> and every facet \<open>f\<close>, \<^verbatim>\<open>IsCubeFacetActive\<close> gives the same on
  \<open>ientry\<close> and on \<open>Complement ientry\<close>, and so does \<^verbatim>\<open>ComputeNumActiveCubeFacets\<close>. The
  facets hold vertices of the cube, and \<open>V\<close> is below 32 as table indices are
  non-negative \<^verbatim>\<open>int\<close> values.
\<close>

theorem facet_activity_complement:
  assumes "num_table_entries t = 2 ^ NumVertices c" and "NumVertices c < 32"
    and "facet_vertices_below c (NumVertices c)"
    and "0 \<le> sint ientry" and "sint ientry < 2 ^ NumVertices c"
  shows "(\<forall>f<NumFacets c. IsCubeFacetActive c (Complement t ientry) f = IsCubeFacetActive c ientry f)
         \<and> ComputeNumActiveCubeFacets c (Complement t ientry) = ComputeNumActiveCubeFacets c ientry"
proof -
  have a: "IsCubeFacetActive c (Complement t ientry) f = IsCubeFacetActive c ientry f"
    if "f < NumFacets c" for f
    using facet_signs_complement [OF assms(3,2) that, of ientry] assms(1)
    by (auto simp add: IsCubeFacetActive_iff Complement_def)
  then have "{f. f < NumFacets c \<and> IsCubeFacetActive c (Complement t ientry) f}
      = {f. f < NumFacets c \<and> IsCubeFacetActive c ientry f}"
    by auto
  then show ?thesis
    using a by (simp add: ComputeNumActiveCubeFacets_eq)
qed

theorem facet_activity_complement_witness:
  "num_table_entries (table_of_size 16) = 2 ^ NumVertices square \<and> NumVertices square < 32
   \<and> facet_vertices_below square (NumVertices square)
   \<and> 0 \<le> sint (3 :: TABLE_INDEX) \<and> sint (3 :: TABLE_INDEX) < 2 ^ NumVertices square
   \<and> Complement (table_of_size 16) 3 = 12
   \<and> ComputeNumActiveCubeFacets square 12 = 2 \<and> ComputeNumActiveCubeFacets square 3 = 2
   \<and> IsCubeFacetActive square 12 1 \<and> IsCubeFacetActive square 3 1"
proof -
  have h1: "num_table_entries (table_of_size 16) = 2 ^ NumVertices square"
    by (simp add: table_of_size_def square_def)
  have h2: "NumVertices square < 32"
    by (simp add: square_def)
  have h3: "facet_vertices_below square (NumVertices square)"
    using square_facet_vertices by (simp add: square_def)
  have h4: "0 \<le> sint (3 :: TABLE_INDEX)" and h5: "sint (3 :: TABLE_INDEX) < 2 ^ NumVertices square"
    by (simp_all add: square_def)
  have c: "Complement (table_of_size 16) 3 = 12"
    by (simp add: table_of_size_def Complement_def compute_complement_def)
  have v: "ComputeNumActiveCubeFacets square 3 = 2" "IsCubeFacetActive square 3 1"
    by code_simp+
  have n: "(1::nat) < NumFacets square"
    by (simp add: square_def)
  show ?thesis
    using facet_activity_complement [OF h1 h2 h3 h4 h5] h1 h2 h3 h4 h5 c v n by auto
qed

text \<open>
  C5. For every table index \<open>ientry\<close> and flag \<open>flag_positive\<close>,
  \<^verbatim>\<open>ComputeNumComponents\<close> returns the number of connected components of the positive
  vertices (of the negative vertices, when the flag is false) of the configuration under
  the edge-adjacency graph of the cube. The scratch state is one for this cube.
\<close>

theorem ComputeNumComponents_correct:
  assumes "num_cube_vertices find_component = NumVertices c"
  shows "fst (ComputeNumComponents c find_component ientry flag_positive)
           = num_connected_components c ientry flag_positive"
  using assms by (rule ComputeNumComponents_count)

theorem ComputeNumComponents_correct_witness:
  "num_cube_vertices (FIND_COMPONENT_init 4) = NumVertices square
   \<and> fst (ComputeNumComponents square (FIND_COMPONENT_init 4) 5 True) = 2
   \<and> num_connected_components square 5 True = 2
   \<and> fst (ComputeNumComponents square (FIND_COMPONENT_init 4) 7 False) = 1
   \<and> num_connected_components square 7 False = 1"
proof -
  have h: "num_cube_vertices (FIND_COMPONENT_init 4) = NumVertices square"
    by (simp add: FIND_COMPONENT_init_def square_def)
  have a: "fst (ComputeNumComponents square (FIND_COMPONENT_init 4) 5 True) = 2"
    by code_simp
  have b: "fst (ComputeNumComponents square (FIND_COMPONENT_init 4) 7 False) = 1"
    by code_simp
  show ?thesis
    using ComputeNumComponents_correct [OF h, of 5 True]
      ComputeNumComponents_correct [OF h, of 7 False] h a b by simp
qed

section \<open>The built table\<close>

lemma Create_success:
  assumes "Create cube force t d sep_neg sep_opp = (None, t')"
  shows "entry t' = CreateTableEntries (cube d) force sep_neg sep_opp"
    and "is_table_allocated t'"
    and "num_table_entries t' = 2 ^ NumVertices (cube d)"
    and "NumVertices (cube d) \<le> max_num_vertices t"
  using assms by (auto simp: Create_def Let_def FreeAll_def split: if_splits)

lemma Create_failure:
  assumes "max_num_vertices t < NumVertices (cube d)"
  shows "Create cube force t d sep_neg sep_opp = (Some DimensionError, FreeAll t)"
  using assms by (simp add: Create_def Let_def)

lemma word_of_nat_sint:
  fixes it :: "'a::len word"
  assumes "0 \<le> sint it"
  shows "of_nat (nat (sint it)) = it"
proof -
  have "(of_nat (nat (sint it)) :: 'a word) = word_of_int (int (nat (sint it)))"
    by simp
  also have "\<dots> = word_of_int (sint it)"
    using assms by simp
  also have "\<dots> = it"
    by simp
  finally show ?thesis .
qed

lemma table_entry_lookup:
  assumes "0 \<le> sint it" "sint it < 2 ^ NumVertices c"
  shows "nat (sint it) < length (CreateTableEntries c force sep_neg sep_opp)"
    and "CreateTableEntries c force sep_neg sep_opp ! nat (sint it)
           = create_entry c force sep_neg sep_opp it"
proof -
  have "int (nat (sint it)) < int (2 ^ NumVertices c)"
    using assms by simp
  then have l: "nat (sint it) < 2 ^ NumVertices c"
    by (simp only: of_nat_less_iff)
  then show "nat (sint it) < length (CreateTableEntries c force sep_neg sep_opp)"
    by (simp add: CreateTableEntries_def)
  show "CreateTableEntries c force sep_neg sep_opp ! nat (sint it)
           = create_entry c force sep_neg sep_opp it"
    using l word_of_nat_sint [OF assms(1)] by (simp add: CreateTableEntries_def)
qed

lemma create_entry_is_bipolar:
  "length (is_bipolar (create_entry c force sep_neg sep_opp it)) = NumEdges c"
  "e < NumEdges c \<Longrightarrow> is_bipolar (create_entry c force sep_neg sep_opp it) ! e
     = (bit it (fst (EdgeEndpoint c e)) \<noteq> bit it (snd (EdgeEndpoint c e)))"
  by (simp_all add: create_entry_def Let_def case_prod_beta)

lemma IsBipolar_created:
  assumes "Create cube force t d sep_neg sep_opp = (None, t')"
    and "0 \<le> sint it" and "sint it < 2 ^ NumVertices (cube d)" and "e < NumEdges (cube d)"
  shows "IsBipolar t' it e
     = Returns (bit it (fst (EdgeEndpoint (cube d) e)) \<noteq> bit it (snd (EdgeEndpoint (cube d) e)))"
  using table_entry_lookup [OF assms(2,3), of force sep_neg sep_opp] assms(4)
  by (simp add: IsBipolar_def Create_success(1) [OF assms(1)] assms(2) create_entry_is_bipolar)

text \<open>
  C1. For every table index \<open>it\<close> in \<open>[0, 2 ^ V)\<close> and every polytope edge \<open>e\<close>, after a
  successful build the stored bipolar flag is the sign test on the endpoints of the edge:
  \<open>IsBipolar it e\<close> is true if and only if \<open>IsPositive it (endpoint0 e)\<close> differs from
  \<open>IsPositive it (endpoint1 e)\<close>.
\<close>

theorem IsBipolar_sign_test:
  assumes "Create cube force t d sep_neg sep_opp = (None, t')"
    and "0 \<le> sint it" and "sint it < 2 ^ NumVertices (cube d)" and "e < NumEdges (cube d)"
  shows "IsBipolar t' it e
     = Returns (IsPositive t' it (fst (EdgeEndpoint (cube d) e))
                  \<noteq> IsPositive t' it (snd (EdgeEndpoint (cube d) e)))"
  using IsBipolar_created [OF assms] by (simp add: IsPositive_def)

lemma Create_square_succeeds:
  "Create (\<lambda>d. square) force (ISODUAL_CUBE_TABLE_AMBIG_init 20) 2 sep_neg sep_opp
     = (None, snd (Create (\<lambda>d. square) force (ISODUAL_CUBE_TABLE_AMBIG_init 20) 2 sep_neg sep_opp))"
  by (simp add: Create_def Let_def ISODUAL_CUBE_TABLE_AMBIG_init_def FreeAll_def square_def)

theorem IsBipolar_sign_test_witness:
  "Create (\<lambda>d. square) no_separation (ISODUAL_CUBE_TABLE_AMBIG_init 20) 2 False False
     = (None, snd (Create (\<lambda>d. square) no_separation (ISODUAL_CUBE_TABLE_AMBIG_init 20) 2 False False))
   \<and> 0 \<le> sint (5 :: TABLE_INDEX) \<and> sint (5 :: TABLE_INDEX) < 2 ^ NumVertices square
   \<and> (0 :: nat) < NumEdges square
   \<and> EdgeEndpoint square 0 = (0, 1)
   \<and> IsBipolar (snd (Create (\<lambda>d. square) no_separation (ISODUAL_CUBE_TABLE_AMBIG_init 20) 2 False False)) 5 0
       = Returns True
   \<and> IsPositive (snd (Create (\<lambda>d. square) no_separation (ISODUAL_CUBE_TABLE_AMBIG_init 20) 2 False False)) 5 0
   \<and> \<not> IsPositive (snd (Create (\<lambda>d. square) no_separation (ISODUAL_CUBE_TABLE_AMBIG_init 20) 2 False False)) 5 1"
proof -
  let ?t = "snd (Create (\<lambda>d. square) no_separation (ISODUAL_CUBE_TABLE_AMBIG_init 20) 2 False False)"
  have h1: "Create (\<lambda>d. square) no_separation (ISODUAL_CUBE_TABLE_AMBIG_init 20) 2 False False = (None, ?t)"
    by (rule Create_square_succeeds)
  have h2: "0 \<le> sint (5 :: TABLE_INDEX)" and h3: "sint (5 :: TABLE_INDEX) < 2 ^ NumVertices square"
    and h4: "(0 :: nat) < NumEdges square" and e: "EdgeEndpoint square 0 = (0, 1)"
    by (simp_all add: square_def)
  have p: "IsPositive ?t 5 0" "\<not> IsPositive ?t 5 1"
    by (simp_all add: IsPositive_def)
  show ?thesis
    using IsBipolar_sign_test [of "\<lambda>d. square" no_separation "ISODUAL_CUBE_TABLE_AMBIG_init 20" 2 False False ?t 5 0,
        OF h1 h2 h3 h4] h1 h2 h3 h4 e p
    by simp
qed






text \<open>
  For a configuration with a bipolar edge and without a forced separation, the patch
  count is the number of connected components of the positive vertices, to which the
  separation of the negative vertices adds the number of their components.
\<close>

lemma create_entry_num_vertices:
  assumes "is_crossed c it"
  shows "num_vertices (create_entry c force sep_neg False it)
     = int (num_connected_components c it True
            + (if sep_neg then num_connected_components c it False else 0))"
proof -
  have n: "num_cube_vertices (FIND_COMPONENT_init (NumVertices c)) = NumVertices c"
    by (simp add: FIND_COMPONENT_init_def)
  show ?thesis
    using assms
    by (simp add: create_entry_def labelled_components_def Let_def
        ComputeNumComponents_count [OF n])
qed

section \<open>The all-outside and the all-inside configuration\<close>








section \<open>The isosurface vertex incident on a bipolar edge\<close>











section \<open>A build that fails\<close>

text \<open>
  C9. (as amended) Building a table for a dimension whose cube vertex count exceeds
  \<^verbatim>\<open>MaxNumVertices\<close> fails with a \<^verbatim>\<open>DimensionError\<close> and leaves the table not allocated:
  \<^verbatim>\<open>IsTableAllocated\<close> is false and there are no entries. The accessors
  \<^verbatim>\<open>NumIsoVertices\<close>, \<^verbatim>\<open>IncidentIsoVertex\<close> and \<^verbatim>\<open>IsBipolar\<close> make no check of their own:
  on such a table every read is outside the array, which is undefined, and none fails
  with \<^verbatim>\<open>NotBuiltError\<close>.
\<close>

theorem Create_dimension_error:
  assumes "MaxNumVertices t < NumVertices (cube d)"
  shows "fst (Create cube force t d sep_neg sep_opp) = Some DimensionError
         \<and> \<not> IsTableAllocated (snd (Create cube force t d sep_neg sep_opp))
         \<and> entry (snd (Create cube force t d sep_neg sep_opp)) = []
         \<and> NumIsoVertices (snd (Create cube force t d sep_neg sep_opp)) it = Undefined
         \<and> IncidentIsoVertex (snd (Create cube force t d sep_neg sep_opp)) it kf = Undefined
         \<and> IsBipolar (snd (Create cube force t d sep_neg sep_opp)) it ke = Undefined"
  using assms
  by (simp add: Create_failure MaxNumVertices_def FreeAll_def IsTableAllocated_def
      NumIsoVertices_def IncidentIsoVertex_def IsBipolar_def)

theorem Create_dimension_error_witness:
  "MaxNumVertices (ISODUAL_CUBE_TABLE_AMBIG_init 3) < NumVertices square
   \<and> fst (Create (\<lambda>d. square) no_separation (ISODUAL_CUBE_TABLE_AMBIG_init 3) 2 False False)
       = Some DimensionError
   \<and> \<not> IsTableAllocated (snd (Create (\<lambda>d. square) no_separation (ISODUAL_CUBE_TABLE_AMBIG_init 3) 2 False False))
   \<and> IsBipolar (snd (Create (\<lambda>d. square) no_separation (ISODUAL_CUBE_TABLE_AMBIG_init 3) 2 False False)) 1 0
       = Undefined"
proof -
  have h: "MaxNumVertices (ISODUAL_CUBE_TABLE_AMBIG_init 3) < NumVertices ((\<lambda>d. square) 2)"
    by (simp add: MaxNumVertices_def ISODUAL_CUBE_TABLE_AMBIG_init_def square_def)
  show ?thesis
    using Create_dimension_error [where t = "ISODUAL_CUBE_TABLE_AMBIG_init 3" and cube = "\<lambda>d. square"
        and d = 2 and force = no_separation and sep_neg = False and sep_opp = False
        and it = 1 and kf = 0 and ke = 0] h
    by simp
qed

text \<open>
  A build of the square with at most 3 vertices allowed fails with \<^verbatim>\<open>DimensionError\<close>;
  the accessors then do not fail with \<^verbatim>\<open>NotBuiltError\<close>.
\<close>

theorem accessor_NotBuiltError_counterexample:
  "fst (Create (\<lambda>d. square) no_separation (ISODUAL_CUBE_TABLE_AMBIG_init 3) 2 False False)
     = Some DimensionError
   \<and> NumIsoVertices (snd (Create (\<lambda>d. square) no_separation (ISODUAL_CUBE_TABLE_AMBIG_init 3) 2 False False)) 0
       \<noteq> Fails NotBuiltError
   \<and> IsBipolar (snd (Create (\<lambda>d. square) no_separation (ISODUAL_CUBE_TABLE_AMBIG_init 3) 2 False False)) 0 0
       \<noteq> Fails NotBuiltError"
  by (simp add: Create_def Let_def FreeAll_def ISODUAL_CUBE_TABLE_AMBIG_init_def square_def
      NumIsoVertices_def IsBipolar_def)



section \<open>The configurations of the square\<close>











end
